theory Spec2Isabelle
  imports Main "HOL-Library.Sublist" "HOL-Library.AList"
begin

section \<open>Strings\<close>

text \<open>
  JavaScript strings are modelled as HOL strings (lists of 8-bit characters).
  \<open>js_split d s\<close> is \<^verbatim>\<open>s.split(d)\<close> for a one-character separator: the result is
  never empty, and \<^verbatim>\<open>"".split("/")\<close> is \<^verbatim>\<open>[""]\<close>.
\<close>

definition nl :: char where
  "nl = CHR 0x0A"

fun js_split :: "char \<Rightarrow> string \<Rightarrow> string list" where
  "js_split d [] = [[]]"
| "js_split d (c # cs) =
     (if c = d then [] # js_split d cs
      else (case js_split d cs of [] \<Rightarrow> [[c]] | l # ls \<Rightarrow> (c # l) # ls))"

section \<open>JSON\<close>

text \<open>
  \<^verbatim>\<open>JSON.stringify\<close> and \<^verbatim>\<open>JSON.parse\<close> belong to the platform. A string is the
  sequence of bytes of its UTF-8 encoding. A number is kept as its literal: the program
  exchanges no number and computes with none. An object lists its members in insertion
  order.
\<close>

datatype json =
  JNull | JBool bool | JNumber string | JString string | JArray "json list"
  | JObject "(string \<times> json) list"

definition dquote :: char where
  "dquote = CHR 0x22"

definition backslash :: char where
  "backslash = CHR 0x5C"

definition hex_digit :: "nat \<Rightarrow> char" where
  "hex_digit d = (if d < 10 then char_of (48 + d) else char_of (87 + d))"

definition hex_value :: "char \<Rightarrow> nat option" where
  "hex_value c =
     (let n = of_char c :: nat in
      if 48 \<le> n \<and> n \<le> 57 then Some (n - 48)
      else if 97 \<le> n \<and> n \<le> 102 then Some (n - 87)
      else if 65 \<le> n \<and> n \<le> 70 then Some (n - 55)
      else None)"

text \<open>
  The grammar of a number literal: an optional minus sign, an integer part without a
  leading zero, an optional fraction, an optional exponent.
\<close>

definition is_digit :: "char \<Rightarrow> bool" where
  "is_digit c \<longleftrightarrow> 48 \<le> (of_char c :: nat) \<and> (of_char c :: nat) \<le> 57"

definition number_char :: "char \<Rightarrow> bool" where
  "number_char c \<longleftrightarrow>
     is_digit c \<or> c = CHR ''-'' \<or> c = CHR ''+'' \<or> c = CHR ''.'' \<or> c = CHR ''e'' \<or> c = CHR ''E''"

definition digits1 :: "string \<Rightarrow> bool" where
  "digits1 s \<longleftrightarrow> s \<noteq> [] \<and> list_all is_digit s"

fun exp_ok :: "string \<Rightarrow> bool" where
  "exp_ok [] = True"
| "exp_ok (c # r) =
     ((c = CHR ''e'' \<or> c = CHR ''E'') \<and>
      (case r of
         [] \<Rightarrow> False
       | d # r' \<Rightarrow> if d = CHR ''+'' \<or> d = CHR ''-'' then digits1 r' else digits1 r))"

fun frac_ok :: "string \<Rightarrow> bool" where
  "frac_ok [] = True"
| "frac_ok (c # r) =
     (if c = CHR ''.'' then takeWhile is_digit r \<noteq> [] \<and> exp_ok (dropWhile is_digit r)
      else exp_ok (c # r))"

fun int_ok :: "string \<Rightarrow> bool" where
  "int_ok [] = False"
| "int_ok (c # r) =
     (if c = CHR ''0'' then frac_ok r
      else if is_digit c then frac_ok (dropWhile is_digit r)
      else False)"

definition number_ok :: "string \<Rightarrow> bool" where
  "number_ok s = (case s of [] \<Rightarrow> False | c # r \<Rightarrow> if c = CHR ''-'' then int_ok r else int_ok s)"

text \<open>
  \<^verbatim>\<open>JSON.stringify\<close> on a string: the quote and the backslash are escaped, a control
  character gets its short escape or \<^verbatim>\<open>\u00XX\<close>, every other character is copied.
  (For a lone surrogate the platform writes the escape of the code unit, which
  \<^verbatim>\<open>JSON.parse\<close> reads back as the three bytes that are copied here.)
\<close>

definition escape_char :: "char \<Rightarrow> string" where
  "escape_char c =
     (if c = dquote then [backslash, dquote]
      else if c = backslash then [backslash, backslash]
      else if c = CHR 0x08 then [backslash, CHR ''b'']
      else if c = CHR 0x0C then [backslash, CHR ''f'']
      else if c = CHR 0x0A then [backslash, CHR ''n'']
      else if c = CHR 0x0D then [backslash, CHR ''r'']
      else if c = CHR 0x09 then [backslash, CHR ''t'']
      else if (of_char c :: nat) < 32
        then [backslash, CHR ''u'', CHR ''0'', CHR ''0'',
              hex_digit (of_char c div 16), hex_digit (of_char c mod 16)]
      else [c])"

definition quote :: "string \<Rightarrow> string" where
  "quote s = dquote # concat (map escape_char s) @ [dquote]"

fun commas :: "string list \<Rightarrow> string" where
  "commas [] = []"
| "commas [x] = x"
| "commas (x # y # ys) = x @ CHR '','' # commas (y # ys)"

fun stringify :: "json \<Rightarrow> string" where
  "stringify JNull = ''null''"
| "stringify (JBool b) = (if b then ''true'' else ''false'')"
| "stringify (JNumber literal) = literal"
| "stringify (JString s) = quote s"
| "stringify (JArray xs) = CHR ''['' # commas (map stringify xs) @ '']''"
| "stringify (JObject kvs) =
     CHR ''{'' # commas (map (\<lambda>(k, v). quote k @ CHR '':'' # stringify v) kvs) @ ''}''"

text \<open>
  The bytes of a code point in UTF-8. A lone surrogate, which a JavaScript string may
  hold, is written with three bytes like any other code point below \<open>0x10000\<close>.
\<close>

definition utf8 :: "nat \<Rightarrow> string" where
  "utf8 n =
     (if n < 0x80 then [char_of n]
      else if n < 0x800 then [char_of (0xC0 + n div 0x40), char_of (0x80 + n mod 0x40)]
      else if n < 0x10000 then
        [char_of (0xE0 + n div 0x1000), char_of (0x80 + n div 0x40 mod 0x40), char_of (0x80 + n mod 0x40)]
      else
        [char_of (0xF0 + n div 0x40000), char_of (0x80 + n div 0x1000 mod 0x40),
         char_of (0x80 + n div 0x40 mod 0x40), char_of (0x80 + n mod 0x40)])"

text \<open>
  \<^verbatim>\<open>JSON.parse\<close>: a recursive-descent parser. White space is allowed between tokens.
  A string may not hold a raw control character. \<^verbatim>\<open>\uXXXX\<close> names a code unit: the
  escape of a high surrogate followed by the escape of a low surrogate is the code
  point of the pair, and any other escape is the code point of its own number. A number
  is the longest run of number characters, which must follow the grammar. The fuel
  bounds the nesting of calls; each call consumes a character, so the length of the
  text is enough.
\<close>

definition is_ws :: "char \<Rightarrow> bool" where
  "is_ws c \<longleftrightarrow> c = CHR '' '' \<or> c = CHR 0x09 \<or> c = CHR 0x0A \<or> c = CHR 0x0D"

definition skip_ws :: "string \<Rightarrow> string" where
  "skip_ws s = dropWhile is_ws s"

definition unescape :: "char \<Rightarrow> char option" where
  "unescape e =
     (if e = dquote then Some dquote
      else if e = backslash then Some backslash
      else if e = CHR ''/'' then Some (CHR ''/'')
      else if e = CHR ''b'' then Some (CHR 0x08)
      else if e = CHR ''f'' then Some (CHR 0x0C)
      else if e = CHR ''n'' then Some (CHR 0x0A)
      else if e = CHR ''r'' then Some (CHR 0x0D)
      else if e = CHR ''t'' then Some (CHR 0x09)
      else None)"

definition hex4 :: "char \<Rightarrow> char \<Rightarrow> char \<Rightarrow> char \<Rightarrow> nat option" where
  "hex4 a b c d =
     (case (hex_value a, hex_value b, hex_value c, hex_value d) of
        (Some w, Some x, Some y, Some z) \<Rightarrow> Some (((w * 16 + x) * 16 + y) * 16 + z)
      | _ \<Rightarrow> None)"

text \<open>The low surrogate that the text after the escape of the code unit \<open>n\<close> names by
  an escape of its own, when \<open>n\<close> is a high surrogate.\<close>

definition low_surrogate :: "nat \<Rightarrow> string \<Rightarrow> nat option" where
  "low_surrogate n s =
     (if 0xD800 \<le> n \<and> n < 0xDC00 then
        (case s of
           b # u # l1 # l2 # l3 # l4 # r \<Rightarrow>
             if b = backslash \<and> u = CHR ''u'' then
               (case hex4 l1 l2 l3 l4 of
                  None \<Rightarrow> None
                | Some m \<Rightarrow> if 0xDC00 \<le> m \<and> m < 0xE000 then Some m else None)
             else None
         | _ \<Rightarrow> None)
      else None)"

text \<open>The characters of a string literal, after its opening quote.\<close>

fun parse_chars :: "string \<Rightarrow> (string \<times> string) option" where
  "parse_chars [] = None"
| "parse_chars (c # r) =
     (if c = dquote then Some ([], r)
      else if c = backslash then
        (case r of
           [] \<Rightarrow> None
         | e # r' \<Rightarrow>
             if e = CHR ''u'' then
               (case r' of
                  h1 # h2 # h3 # h4 # r'' \<Rightarrow>
                    (case hex4 h1 h2 h3 h4 of
                       None \<Rightarrow> None
                     | Some n \<Rightarrow>
                         (case low_surrogate n r'' of
                            Some m \<Rightarrow>
                              (case parse_chars (drop 6 r'') of
                                 None \<Rightarrow> None
                               | Some (str, rest) \<Rightarrow>
                                   Some (utf8 (0x10000 + (n - 0xD800) * 0x400 + (m - 0xDC00)) @ str, rest))
                          | None \<Rightarrow>
                              (case parse_chars r'' of
                                 None \<Rightarrow> None
                               | Some (str, rest) \<Rightarrow> Some (utf8 n @ str, rest))))
                | _ \<Rightarrow> None)
             else
               (case unescape e of
                  None \<Rightarrow> None
                | Some ch \<Rightarrow>
                    (case parse_chars r' of
                       None \<Rightarrow> None
                     | Some (str, rest) \<Rightarrow> Some (ch # str, rest))))
      else if (of_char c :: nat) < 32 then None
      else
        (case parse_chars r of
           None \<Rightarrow> None
         | Some (str, rest) \<Rightarrow> Some (c # str, rest)))"

definition keyword :: "string \<Rightarrow> json \<Rightarrow> string \<Rightarrow> (json \<times> string) option" where
  "keyword w v s = (if take (length w) s = w then Some (v, drop (length w) s) else None)"

fun parse_value :: "nat \<Rightarrow> string \<Rightarrow> (json \<times> string) option"
  and parse_elements :: "nat \<Rightarrow> string \<Rightarrow> (json list \<times> string) option"
  and parse_members :: "nat \<Rightarrow> string \<Rightarrow> ((string \<times> json) list \<times> string) option"
where
  "parse_value 0 s = None"
| "parse_value (Suc n) s =
     (case skip_ws s of
        [] \<Rightarrow> None
      | c # r \<Rightarrow>
          if c = CHR ''n'' then keyword ''ull'' JNull r
          else if c = CHR ''t'' then keyword ''rue'' (JBool True) r
          else if c = CHR ''f'' then keyword ''alse'' (JBool False) r
          else if c = dquote then
            (case parse_chars r of
               None \<Rightarrow> None
             | Some (str, rest) \<Rightarrow> Some (JString str, rest))
          else if c = CHR ''['' then
            (case skip_ws r of
               [] \<Rightarrow> None
             | c' # r' \<Rightarrow>
                 if c' = CHR '']'' then Some (JArray [], r')
                 else (case parse_elements n r of
                         None \<Rightarrow> None
                       | Some (vs, rest) \<Rightarrow> Some (JArray vs, rest)))
          else if c = CHR ''{'' then
            (case skip_ws r of
               [] \<Rightarrow> None
             | c' # r' \<Rightarrow>
                 if c' = CHR ''}'' then Some (JObject [], r')
                 else (case parse_members n r of
                         None \<Rightarrow> None
                       | Some (kvs, rest) \<Rightarrow> Some (JObject kvs, rest)))
          else if c = CHR ''-'' \<or> is_digit c then
            (let literal = takeWhile number_char (c # r) in
             if number_ok literal then Some (JNumber literal, dropWhile number_char (c # r))
             else None)
          else None)"
| "parse_elements 0 s = None"
| "parse_elements (Suc n) s =
     (case parse_value n s of
        None \<Rightarrow> None
      | Some (v, r) \<Rightarrow>
          (case skip_ws r of
             [] \<Rightarrow> None
           | c # r' \<Rightarrow>
               if c = CHR '','' then
                 (case parse_elements n r' of
                    None \<Rightarrow> None
                  | Some (vs, rest) \<Rightarrow> Some (v # vs, rest))
               else if c = CHR '']'' then Some ([v], r')
               else None))"
| "parse_members 0 s = None"
| "parse_members (Suc n) s =
     (case skip_ws s of
        [] \<Rightarrow> None
      | c # r \<Rightarrow>
          if c = dquote then
            (case parse_chars r of
               None \<Rightarrow> None
             | Some (k, r1) \<Rightarrow>
                 (case skip_ws r1 of
                    [] \<Rightarrow> None
                  | c1 # r2 \<Rightarrow>
                      if c1 = CHR '':'' then
                        (case parse_value n r2 of
                           None \<Rightarrow> None
                         | Some (v, r3) \<Rightarrow>
                             (case skip_ws r3 of
                                [] \<Rightarrow> None
                              | c3 # r4 \<Rightarrow>
                                  if c3 = CHR '','' then
                                    (case parse_members n r4 of
                                       None \<Rightarrow> None
                                     | Some (kvs, rest) \<Rightarrow> Some ((k, v) # kvs, rest))
                                  else if c3 = CHR ''}'' then Some ([(k, v)], r4)
                                  else None))
                      else None))
          else None)"

definition JSON_parse :: "string \<Rightarrow> json option" where
  "JSON_parse s =
     (case parse_value (Suc (length s)) s of
        None \<Rightarrow> None
      | Some (v, r) \<Rightarrow> if skip_ws r = [] then Some v else None)"

text \<open>The values \<^verbatim>\<open>JSON.parse\<close> can return: every number in them is a number literal.\<close>

fun wf_json :: "json \<Rightarrow> bool" where
  "wf_json (JNumber literal) = (number_ok literal \<and> list_all number_char literal)"
| "wf_json (JArray xs) = list_all wf_json xs"
| "wf_json (JObject kvs) = list_all (\<lambda>(k, v). wf_json v) kvs"
| "wf_json v = True"

text \<open>The characters a serialized value can begin with, and the texts that can follow a
  value without running into its last token.\<close>

definition value_start :: "char \<Rightarrow> bool" where
  "value_start c \<longleftrightarrow>
     c = CHR ''n'' \<or> c = CHR ''t'' \<or> c = CHR ''f'' \<or> c = dquote \<or> c = CHR ''['' \<or> c = CHR ''{''
     \<or> c = CHR ''-'' \<or> is_digit c"

definition delimited :: "string \<Rightarrow> bool" where
  "delimited s \<longleftrightarrow> (case s of [] \<Rightarrow> True | c # r \<Rightarrow> \<not> number_char c)"

section \<open>The object store\<close>

text \<open>
  The S3 bucket, as the handlers use it: a list of (key, body) pairs with distinct keys,
  in the store's own order. \<open>online\<close> is false when the store cannot be reached or
  refuses the credentials; every command then throws. \<open>maxKeys\<close> is the page size of
  a listing (1000 unless the request sets it, and the handler does not).
\<close>

datatype exn =
  ServiceUnavailable | NoSuchKey | SyntaxError | TypeError | Error string

record s3 =
  objects :: "(string \<times> string) list"
  maxKeys :: nat
  online :: bool

definition PutObject :: "s3 \<Rightarrow> string \<Rightarrow> string \<Rightarrow> exn + s3" where
  "PutObject st key content =
     (if online st then Inr (st\<lparr>objects := AList.update key content (objects st)\<rparr>)
      else Inl ServiceUnavailable)"

definition GetObject :: "s3 \<Rightarrow> string \<Rightarrow> exn + string" where
  "GetObject st key =
     (if online st then
        (case map_of (objects st) key of None \<Rightarrow> Inl NoSuchKey | Some content \<Rightarrow> Inr content)
      else Inl ServiceUnavailable)"

text \<open>
  A listing with a prefix and a delimiter: a key under the prefix whose remainder holds
  the delimiter is rolled up into the common prefix that ends at the first delimiter;
  any other key under the prefix is listed as content. A page holds at most \<open>maxKeys\<close>
  entries, and the handler reads one page only.
\<close>

datatype list_entry = Contents string | CommonPrefix string

definition list_entry_of :: "string \<Rightarrow> char \<Rightarrow> string \<Rightarrow> list_entry" where
  "list_entry_of pre d key =
     (let rest = drop (length pre) key in
      if d \<in> set rest then CommonPrefix (pre @ takeWhile (\<lambda>c. c \<noteq> d) rest @ [d])
      else Contents key)"

fun common_prefixes :: "list_entry list \<Rightarrow> string list" where
  "common_prefixes [] = []"
| "common_prefixes (CommonPrefix p # es) = p # common_prefixes es"
| "common_prefixes (Contents k # es) = common_prefixes es"

text \<open>The result is the \<^verbatim>\<open>CommonPrefixes\<close> member of the response; it is missing
  (\<open>None\<close>) when the page holds no common prefix.\<close>

definition ListObjectsV2 :: "s3 \<Rightarrow> string \<Rightarrow> char \<Rightarrow> exn + string list option" where
  "ListObjectsV2 st pre d =
     (if online st then
        (let entries = remdups (map (list_entry_of pre d) (filter (prefix pre) (map fst (objects st))));
             page = common_prefixes (take (maxKeys st) entries)
         in Inr (if page = [] then None else Some page))
      else Inl ServiceUnavailable)"

section \<open>The persistence route (POST /api/chat)\<close>

record http_response =
  status :: nat
  body :: string

definition NextResponse_json :: "json \<Rightarrow> nat \<Rightarrow> http_response" where
  "NextResponse_json j st = \<lparr>status = st, body = stringify j\<rparr>"

text \<open>
  Reading a property of a parsed value. \<^verbatim>\<open>JSON.parse\<close> keeps the last of several
  members with one name; a value that is no object has no such property
  (\<^verbatim>\<open>undefined\<close>, here \<open>None\<close>).
\<close>

definition field :: "string \<Rightarrow> json \<Rightarrow> json option" where
  "field k j = (case j of JObject kvs \<Rightarrow> map_of (rev kvs) k | _ \<Rightarrow> None)"

text \<open>The conversion to a string that a template literal applies to a value. A number
  is shown by its literal.\<close>

fun js_String :: "json \<Rightarrow> string" where
  "js_String JNull = ''null''"
| "js_String (JBool b) = (if b then ''true'' else ''false'')"
| "js_String (JNumber literal) = literal"
| "js_String (JString s) = s"
| "js_String (JArray xs) = commas (map (\<lambda>x. if x = JNull then [] else js_String x) xs)"
| "js_String (JObject kvs) = ''[object Object]''"

definition template :: "json option \<Rightarrow> string" where
  "template v = (case v of None \<Rightarrow> ''undefined'' | Some j \<Rightarrow> js_String j)"

definition internal_server_error :: http_response where
  "internal_server_error = NextResponse_json (JObject [(''error'', JString ''Internal server error'')]) 500"

text \<open>\<^verbatim>\<open>prefix.Prefix?.split('/')[2] || ''\<close>\<close>

definition chat_id_of_prefix :: "string \<Rightarrow> string" where
  "chat_id_of_prefix p =
     (let segments = js_split (CHR ''/'') p in
      if 2 < length segments then segments ! 2 else [])"

text \<open>
  The handler. \<open>user\<close> is the id of \<^verbatim>\<open>currentUser()\<close>, or \<open>None\<close>; \<open>reqBody\<close> is the
  text of the request. Every exception thrown inside the \<^verbatim>\<open>try\<close> (a body that does
  not parse, destructuring \<^verbatim>\<open>null\<close>, a failed store command, stored bytes that do not
  parse) ends in the same answer, \<open>internal_server_error\<close>.
\<close>

definition chat_POST :: "s3 \<Rightarrow> string option \<Rightarrow> string \<Rightarrow> http_response \<times> s3" where
  "chat_POST st user reqBody =
     (case user of
        None \<Rightarrow> (NextResponse_json (JObject [(''error'', JString ''Unauthorized'')]) 401, st)
      | Some user_id \<Rightarrow>
          (case JSON_parse reqBody of
             None \<Rightarrow> (internal_server_error, st)
           | Some parsed \<Rightarrow>
               if parsed = JNull then (internal_server_error, st)
               else
                 (let action = field ''action'' parsed;
                      chatId = field ''chatId'' parsed;
                      chatData = field ''chatData'' parsed
                  in
                  if action = Some (JString ''save'') then
                    (let key = user_id @ ''/chats/'' @ template chatId @ ''/data.json'';
                         content = (case chatData of None \<Rightarrow> [] | Some d \<Rightarrow> stringify d)
                     in case PutObject st key content of
                          Inl e \<Rightarrow> (internal_server_error, st)
                        | Inr st' \<Rightarrow> (NextResponse_json (JObject [(''success'', JBool True)]) 200, st'))
                  else if action = Some (JString ''get'') then
                    (let getKey = user_id @ ''/chats/'' @ template chatId @ ''/data.json''
                     in case GetObject st getKey of
                          Inl e \<Rightarrow> (internal_server_error, st)
                        | Inr data \<Rightarrow>
                            if data = [] then (NextResponse_json (JObject [(''data'', JNull)]) 200, st)
                            else (case JSON_parse data of
                                    None \<Rightarrow> (internal_server_error, st)
                                  | Some v \<Rightarrow> (NextResponse_json (JObject [(''data'', v)]) 200, st)))
                  else if action = Some (JString ''list'') then
                    (let pre = user_id @ ''/chats/''
                     in case ListObjectsV2 st pre (CHR ''/'') of
                          Inl e \<Rightarrow> (internal_server_error, st)
                        | Inr commonPrefixes \<Rightarrow>
                            (let chatIds =
                                   (case commonPrefixes of
                                      None \<Rightarrow> []
                                    | Some ps \<Rightarrow> filter (\<lambda>s. s \<noteq> []) (map chat_id_of_prefix ps))
                             in (NextResponse_json (JObject [(''chatIds'', JArray (map JString chatIds))]) 200, st)))
                  else (NextResponse_json (JObject [(''error'', JString ''Invalid action'')]) 400, st))))"

section \<open>The client facade (utils/s3.ts)\<close>

datatype role = User | Assistant

record Message =
  role :: role
  content :: string

record ChatData =
  cd_id :: string
  cd_messages :: "Message list"
  cd_createdAt :: string
  cd_updatedAt :: string

definition role_string :: "role \<Rightarrow> string" where
  "role_string r = (case r of User \<Rightarrow> ''user'' | Assistant \<Rightarrow> ''assistant'')"

text \<open>The JavaScript object a \<open>ChatData\<close> record is, with its members in the order in
  which the dashboard creates them.\<close>

definition messageJson :: "Message \<Rightarrow> json" where
  "messageJson m = JObject [(''role'', JString (role_string (role m))), (''content'', JString (content m))]"

definition chatDataJson :: "ChatData \<Rightarrow> json" where
  "chatDataJson cd =
     JObject [(''id'', JString (cd_id cd)),
              (''messages'', JArray (map messageJson (cd_messages cd))),
              (''createdAt'', JString (cd_createdAt cd)),
              (''updatedAt'', JString (cd_updatedAt cd))]"

text \<open>
  The server as the browser sees it: the bucket and the signed-in user of the session.
  \<^verbatim>\<open>fetch('/api/chat', ...)\<close> posts the serialized request to the handler.
\<close>

record server =
  bucket :: s3
  currentUser :: "string option"

definition fetch_api_chat :: "server \<Rightarrow> json \<Rightarrow> http_response \<times> server" where
  "fetch_api_chat srv request =
     (case chat_POST (bucket srv) (currentUser srv) (stringify request) of
        (response, st') \<Rightarrow> (response, srv\<lparr>bucket := st'\<rparr>))"

definition ok :: "http_response \<Rightarrow> bool" where
  "ok response \<longleftrightarrow> 200 \<le> status response \<and> status response < 300"

definition js_truthy :: "json option \<Rightarrow> bool" where
  "js_truthy v =
     (case v of None \<Rightarrow> False | Some JNull \<Rightarrow> False | Some (JBool b) \<Rightarrow> b
      | Some (JNumber literal) \<Rightarrow>
          list_ex (\<lambda>c. is_digit c \<and> c \<noteq> CHR ''0'')
            (takeWhile (\<lambda>c. c \<noteq> CHR ''e'' \<and> c \<noteq> CHR ''E'') literal)
      | Some (JString s) \<Rightarrow> s \<noteq> [] | Some _ \<Rightarrow> True)"

text \<open>
  \<^verbatim>\<open>const error = await response.json(); throw new Error(error.message || fallback)\<close>:
  what the inner \<^verbatim>\<open>throw\<close> of each facade function throws on a response that is not ok.
\<close>

definition thrown_for :: "http_response \<Rightarrow> string \<Rightarrow> exn" where
  "thrown_for response fallback =
     (case JSON_parse (body response) of
        None \<Rightarrow> SyntaxError
      | Some err \<Rightarrow>
          if err = JNull then TypeError
          else if js_truthy (field ''message'' err) then Error (template (field ''message'' err))
          else Error fallback)"

text \<open>The \<open>userId\<close> argument of the three functions is never read.\<close>

definition saveChatToS3 :: "server \<Rightarrow> string \<Rightarrow> string \<Rightarrow> ChatData \<Rightarrow> (exn + unit) \<times> server" where
  "saveChatToS3 srv userId chatId chatData =
     (case fetch_api_chat srv
             (JObject [(''action'', JString ''save''), (''chatId'', JString chatId),
                       (''chatData'', chatDataJson chatData)]) of
        (response, srv') \<Rightarrow>
          (let attempt = (if \<not> ok response then Inl (thrown_for response ''Failed to save chat data'')
                          else Inr ())
           in case attempt of
                Inl e \<Rightarrow> (Inl (Error ''Failed to save chat data''), srv')
              | Inr u \<Rightarrow> (Inr u, srv')))"

definition getChatFromS3 :: "server \<Rightarrow> string \<Rightarrow> string \<Rightarrow> json option \<times> server" where
  "getChatFromS3 srv userId chatId =
     (case fetch_api_chat srv (JObject [(''action'', JString ''get''), (''chatId'', JString chatId)]) of
        (response, srv') \<Rightarrow>
          (let attempt =
                 (if \<not> ok response then Inl (thrown_for response ''Failed to get chat data'')
                  else (case JSON_parse (body response) of
                          None \<Rightarrow> Inl SyntaxError
                        | Some j \<Rightarrow> if j = JNull then Inl TypeError else Inr (field ''data'' j)))
           in case attempt of
                Inl e \<Rightarrow> (Some JNull, srv')
              | Inr data \<Rightarrow> (data, srv')))"

definition listUserChats :: "server \<Rightarrow> string \<Rightarrow> json option \<times> server" where
  "listUserChats srv userId =
     (case fetch_api_chat srv (JObject [(''action'', JString ''list'')]) of
        (response, srv') \<Rightarrow>
          (let attempt =
                 (if \<not> ok response then Inl (thrown_for response ''Failed to list chats'')
                  else (case JSON_parse (body response) of
                          None \<Rightarrow> Inl SyntaxError
                        | Some j \<Rightarrow> if j = JNull then Inl TypeError else Inr (field ''chatIds'' j)))
           in case attempt of
                Inl e \<Rightarrow> (Some (JArray []), srv')
              | Inr chatIds \<Rightarrow> (chatIds, srv')))"

text \<open>A client that saves a sequence of chats, one call of \<open>saveChatToS3\<close> each.\<close>

fun save_all :: "server \<Rightarrow> string \<Rightarrow> (string \<times> ChatData) list \<Rightarrow> server" where
  "save_all srv userId [] = srv"
| "save_all srv userId ((chatId, cd) # rest) =
     save_all (snd (saveChatToS3 srv userId chatId cd)) userId rest"

text \<open>Example values: a signed-in user with an empty bucket, a chat record, and a bucket
  whose one object does not hold JSON.\<close>

definition srv0 :: server where
  "srv0 = \<lparr>bucket = \<lparr>objects = [], maxKeys = 1000, online = True\<rparr>, currentUser = Some ''user_1''\<rparr>"

definition chat0 :: ChatData where
  "chat0 = \<lparr>cd_id = ''1700000000000'',
            cd_messages = [\<lparr>role = User, content = ''write a tweet about Mars''\<rparr>,
                           \<lparr>role = Assistant, content = ''Red planet vibes''\<rparr>],
            cd_createdAt = ''2023-11-14T22:13:20.000Z'', cd_updatedAt = ''2023-11-14T22:13:21.000Z''\<rparr>"

definition srv_malformed :: server where
  "srv_malformed = \<lparr>bucket = \<lparr>objects = [(''user_1/chats/c1/data.json'', ''{'')], maxKeys = 1000, online = True\<rparr>,
                    currentUser = Some ''user_1''\<rparr>"

section \<open>The generation route (POST /api/gemini)\<close>

definition SYSTEM_PROMPT :: string where
  "SYSTEM_PROMPT = ''You are an expert AI Twitter copywriter and creative assistant.\<newline>\<newline>Your role is to help users craft highly engaging, concise, and personalized tweets (under 280 characters) based on detailed input. You must interpret and use all available context to create a compelling tweet aligned with the user's objectives and audience preferences.\<newline>\<newline>Key Requirements:\<newline>1. Keep tweets under 280 characters\<newline>2. Use the provided tone and style\<newline>3. Target the specified audience\<newline>4. Make it engaging and shareable\<newline>5. Avoid sensitive or controversial content\<newline>6. Use emojis sparingly and appropriately\<newline>\<newline>Return ONLY the tweet text, no explanations or additional text.''"

text \<open>
  The request body \<^verbatim>\<open>{ prompt, tone, goal, audience, conversationHistory }\<close>. A field
  that is missing or \<^verbatim>\<open>null\<close> is \<open>None\<close>. The handler tests fields for truthiness:
  \<open>None\<close> and the empty string are falsy.
\<close>

record history_message =
  hm_role :: string
  hm_content :: string

record generate_request =
  req_prompt :: "string option"
  req_tone :: "string option"
  req_goal :: "string option"
  req_audience :: "string option"
  req_conversationHistory :: "history_message list option"

definition truthy :: "string option \<Rightarrow> bool" where
  "truthy v = (case v of None \<Rightarrow> False | Some s \<Rightarrow> s \<noteq> [])"

text \<open>The body of the \<^verbatim>\<open>forEach\<close> over the conversation history.\<close>

definition history_line :: "string \<Rightarrow> history_message \<Rightarrow> string" where
  "history_line acc msg =
     acc @ (if hm_role msg = ''user'' then ''User'' else ''Assistant'') @ '': '' @ hm_content msg @ [nl]"

text \<open>
  \<^verbatim>\<open>enhancedPrompt\<close> is built by successive \<^verbatim>\<open>+=\<close>; \<open>p0\<close> ... \<open>p4\<close> are its
  successive values.
\<close>

definition enhancedPrompt ::
  "string \<Rightarrow> string option \<Rightarrow> string option \<Rightarrow> string option \<Rightarrow> history_message list option \<Rightarrow> string" where
  "enhancedPrompt prompt tone goal audience conversationHistory =
     (let p0 = SYSTEM_PROMPT @ [nl, nl] @ ''Create a tweet with the following specifications:'' @ [nl];
          p1 = (case tone of None \<Rightarrow> p0
                | Some t \<Rightarrow> if t \<noteq> [] then p0 @ ''Tone: '' @ t @ [nl] else p0);
          p2 = (case goal of None \<Rightarrow> p1
                | Some g \<Rightarrow> if g \<noteq> [] then p1 @ ''Goal: '' @ g @ [nl] else p1);
          p3 = (case audience of None \<Rightarrow> p2
                | Some a \<Rightarrow> if a \<noteq> [] then p2 @ ''Target Audience: '' @ a @ [nl] else p2);
          p4 = (case conversationHistory of None \<Rightarrow> p3
                | Some h \<Rightarrow>
                    if length h > 0
                    then foldl history_line (p3 @ [nl] @ ''Previous conversation context:'' @ [nl]) h
                    else p3)
      in p4 @ [nl] @ ''User's request: '' @ prompt @ [nl, nl]
            @ ''Generate a tweet that matches these specifications.'')"

text \<open>
  The provider (\<^verbatim>\<open>model.generateContentStream\<close>) is outside the repository. A call either
  rejects, or yields a finite sequence of chunks and then ends or fails. \<^verbatim>\<open>chunk.text()\<close>
  returns the chunk's text or throws.
\<close>

datatype chunk = Text string | TextThrows

datatype stream_end = EndOfGeneration | ProviderError

datatype provider_outcome = CallRejected | Generating "chunk list" stream_end

text \<open>
  The calls made on the stream's controller, in order. \<^verbatim>\<open>encoder.encode(text)\<close> is the
  UTF-8 encoding of the text; a HOL string already is a byte sequence, so the encoded
  chunk is the text itself.
\<close>

datatype controller_call = enqueue string | close | error

text \<open>The \<^verbatim>\<open>for await\<close> loop of \<^verbatim>\<open>start\<close>, with its \<^verbatim>\<open>catch\<close>.\<close>

fun relay :: "chunk list \<Rightarrow> stream_end \<Rightarrow> controller_call list" where
  "relay [] EndOfGeneration = [close]"
| "relay [] ProviderError = [error]"
| "relay (Text t # cs) e = enqueue t # relay cs e"
| "relay (TextThrows # cs) e = [error]"

definition start :: "(string \<Rightarrow> provider_outcome) \<Rightarrow> string \<Rightarrow> controller_call list" where
  "start generateContentStream prompt =
     (case generateContentStream prompt of
        CallRejected \<Rightarrow> [error]
      | Generating cs e \<Rightarrow> relay cs e)"

datatype generate_response = JsonError nat string | StreamBody "controller_call list"

text \<open>
  The handler. \<open>user\<close> is the result of \<^verbatim>\<open>currentUser()\<close>; \<open>request\<close> is \<open>None\<close> when
  \<^verbatim>\<open>req.json()\<close> throws (the outer \<^verbatim>\<open>catch\<close> answers 500).
\<close>

definition gemini_POST ::
  "(string \<Rightarrow> provider_outcome) \<Rightarrow> string option \<Rightarrow> generate_request option \<Rightarrow> generate_response" where
  "gemini_POST generateContentStream user request =
     (case user of
        None \<Rightarrow> JsonError 401 ''Unauthorized''
      | Some u \<Rightarrow>
          (case request of
             None \<Rightarrow> JsonError 500 ''Failed to generate response''
           | Some r \<Rightarrow>
               (case req_prompt r of
                  None \<Rightarrow> JsonError 400 ''Prompt is required''
                | Some p \<Rightarrow>
                    if p = [] then JsonError 400 ''Prompt is required''
                    else StreamBody (start generateContentStream
                           (enhancedPrompt p (req_tone r) (req_goal r) (req_audience r)
                              (req_conversationHistory r))))))"

text \<open>What the tests of C9 look at: the lines of the composed instruction that are
  constraint lines.\<close>

definition constraint_line :: "string \<Rightarrow> bool" where
  "constraint_line l \<longleftrightarrow>
     prefix ''Tone: '' l \<or> prefix ''Goal: '' l \<or> prefix ''Target Audience: '' l"

definition constraint_lines :: "string \<Rightarrow> string list" where
  "constraint_lines s = filter constraint_line (js_split nl s)"

definition rendered :: "string \<Rightarrow> string option \<Rightarrow> string list" where
  "rendered label v = (case v of None \<Rightarrow> [] | Some s \<Rightarrow> if s = [] then [] else [label @ '': '' @ s])"


text \<open>The sections of the composed instruction, used to state what \<open>enhancedPrompt\<close>
  computes.\<close>

definition seg :: "string \<Rightarrow> string option \<Rightarrow> string" where
  "seg label v = (case v of None \<Rightarrow> [] | Some s \<Rightarrow> if s = [] then [] else label @ '': '' @ s @ [nl])"

definition history_block :: "history_message list option \<Rightarrow> string" where
  "history_block hist = (case hist of None \<Rightarrow> [] | Some h \<Rightarrow>
      if h = [] then [] else [nl] @ ''Previous conversation context:'' @ [nl] @ concat (map (history_line []) h))"

definition request_block :: "string \<Rightarrow> string" where
  "request_block prompt = [nl] @ ''User's request: '' @ prompt @ [nl, nl]
            @ ''Generate a tweet that matches these specifications.''"

definition header :: string where
  "header = SYSTEM_PROMPT @ [nl, nl] @ ''Create a tweet with the following specifications:'' @ [nl]"

text \<open>
  The chunks a stream was given, in order; a provider whose call fails before it yields
  any text; and a provider whose call fails at any point.
\<close>

fun enqueued :: "controller_call list \<Rightarrow> string list" where
  "enqueued [] = []"
| "enqueued (enqueue v # cs) = v # enqueued cs"
| "enqueued (close # cs) = enqueued cs"
| "enqueued (error # cs) = enqueued cs"

fun fails_first :: "provider_outcome \<Rightarrow> bool" where
  "fails_first CallRejected = True"
| "fails_first (Generating [] ProviderError) = True"
| "fails_first (Generating (TextThrows # cs) e) = True"
| "fails_first (Generating [] EndOfGeneration) = False"
| "fails_first (Generating (Text t # cs) e) = False"


text \<open>Example values: a provider that streams three fragments, a provider whose call
  is rejected, and a request.\<close>

definition provider_ok :: "string \<Rightarrow> provider_outcome" where
  "provider_ok p = Generating [Text ''Red'', Text '' planet'', Text '' vibes''] EndOfGeneration"

definition provider_down :: "string \<Rightarrow> provider_outcome" where
  "provider_down p = CallRejected"

definition request0 :: generate_request where
  "request0 = \<lparr>req_prompt = Some ''write a tweet about Mars'', req_tone = Some ''Witty'',
               req_goal = None, req_audience = None, req_conversationHistory = Some []\<rparr>"

section \<open>The dashboard (app/dashboard/page.tsx)\<close>

record Chat =
  chat_id :: string
  chat_messages :: "Message list"
  createdAt :: nat
  updatedAt :: nat

datatype Tone = ToneNone | Funny | Professional | Inspirational | Witty

datatype Goal = GoalNone | Engagement | Informative | Promotion

datatype Audience = AudienceNone | Tech | Marketing | Founders | General

text \<open>\<^verbatim>\<open>tone === 'None' ? null : tone\<close>, and likewise for the goal and the audience.\<close>

definition tone_value :: "Tone \<Rightarrow> string option" where
  "tone_value t =
     (case t of ToneNone \<Rightarrow> None | Funny \<Rightarrow> Some ''Funny'' | Professional \<Rightarrow> Some ''Professional''
      | Inspirational \<Rightarrow> Some ''Inspirational'' | Witty \<Rightarrow> Some ''Witty'')"

definition goal_value :: "Goal \<Rightarrow> string option" where
  "goal_value g =
     (case g of GoalNone \<Rightarrow> None | Engagement \<Rightarrow> Some ''Engagement''
      | Informative \<Rightarrow> Some ''Informative'' | Promotion \<Rightarrow> Some ''Promotion'')"

definition audience_value :: "Audience \<Rightarrow> string option" where
  "audience_value a =
     (case a of AudienceNone \<Rightarrow> None | Tech \<Rightarrow> Some ''Tech'' | Marketing \<Rightarrow> Some ''Marketing''
      | Founders \<Rightarrow> Some ''Founders'' | General \<Rightarrow> Some ''General'')"

text \<open>The state of the component: \<^verbatim>\<open>userId\<close> of \<^verbatim>\<open>useAuth()\<close> and the \<^verbatim>\<open>useState\<close>
  variables.\<close>

record dashboard =
  userId :: "string option"
  chats :: "Chat list"
  currentChatId :: string
  messages :: "Message list"
  input :: string
  isLoading :: bool
  tone :: Tone
  goal :: Goal
  audience :: Audience
  currentStreamingMessage :: string

text \<open>
  What the browser acts on: the server behind \<^verbatim>\<open>/api/chat\<close>, the provider behind
  \<^verbatim>\<open>/api/gemini\<close>, and the clock. The \<open>n\<close>-th reading of the clock is \<open>clock n\<close>;
  \<open>ticks\<close> counts the readings made. \<open>toISOString\<close> is \<^verbatim>\<open>Date.prototype.toISOString\<close>.
  \<open>calls\<close> records the calls the component has issued, in order.
\<close>

datatype api_call = SaveChat string string ChatData | Generate generate_request

record world =
  backend :: server
  provider :: "string \<Rightarrow> provider_outcome"
  clock :: "nat \<Rightarrow> nat"
  ticks :: nat
  toISOString :: "nat \<Rightarrow> string"
  calls :: "api_call list"

definition Date_now :: "world \<Rightarrow> nat \<times> world" where
  "Date_now w = (clock w (ticks w), w\<lparr>ticks := Suc (ticks w)\<rparr>)"

text \<open>\<^verbatim>\<open>Number.prototype.toString\<close> on a natural number: its decimal digits.\<close>

function decimal :: "nat \<Rightarrow> string" where
  "decimal n = (if n < 10 then [char_of (48 + n)] else decimal (n div 10) @ [char_of (48 + n mod 10)])"
  by pat_completeness auto
termination
  by (relation "measure id") auto

declare decimal.simps [simp del]

definition toChatData :: "world \<Rightarrow> Chat \<Rightarrow> ChatData" where
  "toChatData w chat =
     \<lparr>cd_id = chat_id chat, cd_messages = chat_messages chat,
      cd_createdAt = toISOString w (createdAt chat), cd_updatedAt = toISOString w (updatedAt chat)\<rparr>"

text \<open>The component calling \<open>saveChatToS3\<close>; the result is dropped or logged by every caller.\<close>

definition call_saveChatToS3 :: "world \<Rightarrow> string \<Rightarrow> string \<Rightarrow> ChatData \<Rightarrow> world" where
  "call_saveChatToS3 w uid chatId chatData =
     (case saveChatToS3 (backend w) uid chatId chatData of
        (result, srv') \<Rightarrow> w\<lparr>backend := srv', calls := calls w @ [SaveChat uid chatId chatData]\<rparr>)"

text \<open>
  The effect on \<^verbatim>\<open>[currentChatId, chats]\<close>: after either changes, the messages shown
  become those of the first chat with the current id, when there is one.
\<close>

definition syncMessages :: "dashboard \<Rightarrow> dashboard" where
  "syncMessages s =
     (case find (\<lambda>chat. chat_id chat = currentChatId s) (chats s) of
        None \<Rightarrow> s
      | Some currentChat \<Rightarrow> s\<lparr>messages := chat_messages currentChat\<rparr>)"

definition createNewChat :: "dashboard \<times> world \<Rightarrow> dashboard \<times> world" where
  "createNewChat sw =
     (case sw of (s, w) \<Rightarrow>
        (case Date_now w of (t0, w1) \<Rightarrow>
           (case Date_now w1 of (t1, w2) \<Rightarrow>
              (case Date_now w2 of (t2, w3) \<Rightarrow>
                 (let newChat = \<lparr>chat_id = decimal t0, chat_messages = [], createdAt = t1, updatedAt = t2\<rparr>;
                      s' = syncMessages
                             (s\<lparr>chats := chats s @ [newChat], currentChatId := chat_id newChat,
                                messages := [], input := [], currentStreamingMessage := []\<rparr>)
                  in case userId s of
                       None \<Rightarrow> (s', w3)
                     | Some uid \<Rightarrow>
                         if uid = [] then (s', w3)
                         else (s', call_saveChatToS3 w3 uid (chat_id newChat) (toChatData w3 newChat)))))))"

text \<open>\<^verbatim>\<open>onClick={() => setCurrentChatId(chat.id)}\<close> of an entry of the chat list.\<close>

definition selectChat :: "string \<Rightarrow> dashboard \<times> world \<Rightarrow> dashboard \<times> world" where
  "selectChat cid sw = (case sw of (s, w) \<Rightarrow> (syncMessages (s\<lparr>currentChatId := cid\<rparr>), w))"

text \<open>
  \<^verbatim>\<open>saveChat\<close> reads \<^verbatim>\<open>userId\<close> and \<^verbatim>\<open>chats\<close> of the render that created it (\<open>closure\<close>)
  and updates the current state. It returns at once when \<^verbatim>\<open>userId\<close> is falsy (missing
  or empty) and when the chat is not in the list.
\<close>

definition saveChat ::
  "dashboard \<Rightarrow> string \<Rightarrow> Message list \<Rightarrow> dashboard \<times> world \<Rightarrow> dashboard \<times> world" where
  "saveChat closure chatId updatedMessages sw =
     (case sw of (s, w) \<Rightarrow>
        (case userId closure of
           None \<Rightarrow> (s, w)
         | Some uid \<Rightarrow>
             if uid = [] then (s, w)
             else
               (case find (\<lambda>c. chat_id c = chatId) (chats closure) of
                  None \<Rightarrow> (s, w)
                | Some chat \<Rightarrow>
                    (case Date_now w of (t, w1) \<Rightarrow>
                       (let updatedChat = chat\<lparr>chat_messages := updatedMessages, updatedAt := t\<rparr>;
                            s' = syncMessages
                                   (s\<lparr>chats := map (\<lambda>c. if chat_id c = chatId then updatedChat else c) (chats s)\<rparr>)
                        in (s', call_saveChatToS3 w1 uid chatId (toChatData w1 updatedChat)))))))"

text \<open>
  \<^verbatim>\<open>String.prototype.trim\<close> removes white space and line terminators from both ends
  of a string. These are the code points of \<^verbatim>\<open>WhiteSpace\<close> and \<^verbatim>\<open>LineTerminator\<close>:
  tab, line feed, vertical tab, form feed, carriage return, space, no-break space,
  \<^verbatim>\<open>U+1680\<close>, \<^verbatim>\<open>U+2000\<close> to \<^verbatim>\<open>U+200A\<close>, the line and paragraph separators,
  \<^verbatim>\<open>U+202F\<close>, \<^verbatim>\<open>U+205F\<close>, \<^verbatim>\<open>U+3000\<close> and \<^verbatim>\<open>U+FEFF\<close>. In a string of bytes
  each is the run of bytes that encodes it.
\<close>

definition WhiteSpace :: "string list" where
  "WhiteSpace =
     map utf8 [0x09, 0x0A, 0x0B, 0x0C, 0x0D, 0x20, 0xA0, 0x1680,
               0x2000, 0x2001, 0x2002, 0x2003, 0x2004, 0x2005, 0x2006, 0x2007, 0x2008, 0x2009, 0x200A,
               0x2028, 0x2029, 0x202F, 0x205F, 0x3000, 0xFEFF]"

function trimStart :: "string \<Rightarrow> string" where
  "trimStart s =
     (case find (\<lambda>ws. prefix ws s) WhiteSpace of
        None \<Rightarrow> s
      | Some ws \<Rightarrow> trimStart (drop (length ws) s))"
  by pat_completeness auto
termination
proof (relation "measure length")
  show "wf (measure length)"
    by simp
next
  fix s :: string and ws :: string
  assume "find (\<lambda>ws. prefix ws s) WhiteSpace = Some ws"
  then have "prefix ws s" and "ws \<in> set WhiteSpace"
    by (auto simp: find_Some_iff)
  moreover from this have "ws \<noteq> []"
    by (auto simp: WhiteSpace_def utf8_def)
  ultimately have "s \<noteq> []"
    by auto
  with \<open>ws \<noteq> []\<close> show "(drop (length ws) s, s) \<in> measure length"
    by simp
qed

function trimEnd :: "string \<Rightarrow> string" where
  "trimEnd s =
     (case find (\<lambda>ws. suffix ws s) WhiteSpace of
        None \<Rightarrow> s
      | Some ws \<Rightarrow> trimEnd (take (length s - length ws) s))"
  by pat_completeness auto
termination
proof (relation "measure length")
  show "wf (measure length)"
    by simp
next
  fix s :: string and ws :: string
  assume "find (\<lambda>ws. suffix ws s) WhiteSpace = Some ws"
  then have "suffix ws s" and "ws \<in> set WhiteSpace"
    by (auto simp: find_Some_iff)
  moreover from this have "ws \<noteq> []"
    by (auto simp: WhiteSpace_def utf8_def)
  ultimately have "s \<noteq> []"
    by auto
  with \<open>ws \<noteq> []\<close> show "(take (length s - length ws) s, s) \<in> measure length"
    by simp
qed

declare trimStart.simps [simp del] trimEnd.simps [simp del]

definition trim :: "string \<Rightarrow> string" where
  "trim s = trimEnd (trimStart s)"

definition history_of :: "Message \<Rightarrow> history_message" where
  "history_of m = \<lparr>hm_role = role_string (role m), hm_content = content m\<rparr>"

text \<open>The body of the request to \<^verbatim>\<open>/api/gemini\<close>; \<^verbatim>\<open>messages.slice(-4)\<close> is the last four
  messages.\<close>

definition generation_request :: "dashboard \<Rightarrow> generate_request" where
  "generation_request s =
     \<lparr>req_prompt = Some (input s), req_tone = tone_value (tone s), req_goal = goal_value (goal s),
      req_audience = audience_value (audience s),
      req_conversationHistory = Some (map history_of (drop (length (messages s) - 4) (messages s)))\<rparr>"

text \<open>
  The \<^verbatim>\<open>while (true)\<close> loop over \<^verbatim>\<open>reader.read()\<close>. A chunk is appended to the
  accumulated message, which is shown; \<^verbatim>\<open>done\<close> ends the loop; an errored stream makes
  \<^verbatim>\<open>read()\<close> reject. A stream that is neither closed nor errored leaves the loop
  waiting.
\<close>

datatype read_outcome = StreamDone | StreamThrew | StreamPending

fun read_loop :: "controller_call list \<Rightarrow> string \<Rightarrow> dashboard \<Rightarrow> read_outcome \<times> string \<times> dashboard" where
  "read_loop [] accumulatedMessage s = (StreamPending, accumulatedMessage, s)"
| "read_loop (enqueue v # cs) accumulatedMessage s =
     read_loop cs (accumulatedMessage @ v) (s\<lparr>currentStreamingMessage := accumulatedMessage @ v\<rparr>)"
| "read_loop (close # cs) accumulatedMessage s = (StreamDone, accumulatedMessage, s)"
| "read_loop (error # cs) accumulatedMessage s = (StreamThrew, accumulatedMessage, s)"

text \<open>
  \<^verbatim>\<open>handleSubmit\<close> up to the point where it waits for the response of \<^verbatim>\<open>/api/gemini\<close>:
  \<open>None\<close> when the input is blank and the handler returns at once, else the state and
  the world with the request in flight.
\<close>

definition handleSubmit_begin :: "dashboard \<times> world \<Rightarrow> (dashboard \<times> world) option" where
  "handleSubmit_begin sw =
     (case sw of (s, w) \<Rightarrow>
        if trim (input s) = [] then None
        else
          (let userMessage = \<lparr>role = User, content = input s\<rparr>;
               updatedMessages = messages s @ [userMessage];
               s1 = s\<lparr>messages := updatedMessages, input := [], isLoading := True,
                      currentStreamingMessage := []\<rparr>
           in case saveChat s (currentChatId s) updatedMessages (s1, w) of
                (s2, w2) \<Rightarrow> Some (s2, w2\<lparr>calls := calls w2 @ [Generate (generation_request s)]\<rparr>)))"

text \<open>
  The rest of \<^verbatim>\<open>handleSubmit\<close>, from the response on. \<open>closure\<close> is the state of the
  render in which the form was submitted: \<^verbatim>\<open>input\<close>, \<^verbatim>\<open>messages\<close>, \<^verbatim>\<open>currentChatId\<close>
  and the selections are read from it, while the setters act on the current state. A
  response that is not ok throws, as a rejected \<^verbatim>\<open>read()\<close> does; the \<^verbatim>\<open>catch\<close> block
  puts the apology in the assistant's place; \<^verbatim>\<open>finally\<close> clears the loading flag.
\<close>

definition handleSubmit_resume :: "dashboard \<Rightarrow> dashboard \<times> world \<Rightarrow> dashboard \<times> world" where
  "handleSubmit_resume closure sw =
     (case sw of (s2, w) \<Rightarrow>
        (let updatedMessages = messages closure @ [\<lparr>role = User, content = input closure\<rparr>];
             response = gemini_POST (provider w) (currentUser (backend w)) (Some (generation_request closure))
         in case (case response of
                    JsonError st msg \<Rightarrow> (StreamThrew, [], s2)
                  | StreamBody cs \<Rightarrow> read_loop cs [] s2) of
              (outcome, accumulatedMessage, s3) \<Rightarrow>
                (case outcome of
                   StreamDone \<Rightarrow>
                     (let assistantMessage = \<lparr>role = Assistant, content = accumulatedMessage\<rparr>;
                          finalMessages = updatedMessages @ [assistantMessage];
                          s4 = s3\<lparr>messages := finalMessages, currentStreamingMessage := []\<rparr>
                      in case saveChat closure (currentChatId closure) finalMessages (s4, w) of
                           (s5, w5) \<Rightarrow> (s5\<lparr>isLoading := False\<rparr>, w5))
                 | StreamThrew \<Rightarrow>
                     (let errorMessage = \<lparr>role = Assistant,
                                          content = ''Sorry, I encountered an error. Please try again.''\<rparr>;
                          errorMessages = updatedMessages @ [errorMessage];
                          s4 = s3\<lparr>messages := errorMessages\<rparr>
                      in case saveChat closure (currentChatId closure) errorMessages (s4, w) of
                           (s5, w5) \<Rightarrow> (s5\<lparr>isLoading := False\<rparr>, w5))
                 | StreamPending \<Rightarrow> (s3, w))))"

definition handleSubmit :: "dashboard \<times> world \<Rightarrow> dashboard \<times> world" where
  "handleSubmit sw =
     (case handleSubmit_begin sw of
        None \<Rightarrow> sw
      | Some sw' \<Rightarrow> handleSubmit_resume (fst sw) sw')"

text \<open>
  The controls of the page. Only the submit button carries \<^verbatim>\<open>disabled={isLoading}\<close>; the
  New Chat button, the entries of the chat list, the text area (whose Enter key calls
  \<^verbatim>\<open>handleSubmit\<close>) and the three selections carry no such attribute.
\<close>

datatype ui_event =
  ClickNewChat | ClickChat string | ClickGenerate | PressEnter
  | ChangeInput string | ChangeTone Tone | ChangeGoal Goal | ChangeAudience Audience

definition disabled :: "dashboard \<Rightarrow> ui_event \<Rightarrow> bool" where
  "disabled s ev = (case ev of ClickGenerate \<Rightarrow> isLoading s | _ \<Rightarrow> False)"

definition react :: "ui_event \<Rightarrow> dashboard \<times> world \<Rightarrow> dashboard \<times> world" where
  "react ev sw =
     (if disabled (fst sw) ev then sw
      else (case ev of
              ClickNewChat \<Rightarrow> createNewChat sw
            | ClickChat cid \<Rightarrow> selectChat cid sw
            | ClickGenerate \<Rightarrow> handleSubmit sw
            | PressEnter \<Rightarrow> handleSubmit sw
            | ChangeInput v \<Rightarrow> (case sw of (s, w) \<Rightarrow> (s\<lparr>input := v\<rparr>, w))
            | ChangeTone v \<Rightarrow> (case sw of (s, w) \<Rightarrow> (s\<lparr>tone := v\<rparr>, w))
            | ChangeGoal v \<Rightarrow> (case sw of (s, w) \<Rightarrow> (s\<lparr>goal := v\<rparr>, w))
            | ChangeAudience v \<Rightarrow> (case sw of (s, w) \<Rightarrow> (s\<lparr>audience := v\<rparr>, w))))"


text \<open>The state in which a submitted request is in flight; the state itself when the
  input is blank.\<close>

definition in_flight :: "dashboard \<times> world \<Rightarrow> dashboard \<times> world" where
  "in_flight sw = (case handleSubmit_begin sw of None \<Rightarrow> sw | Some sw' \<Rightarrow> sw')"

text \<open>Example values: a signed-in dashboard with two chats and a typed request, and
  worlds whose provider streams or fails.\<close>

definition dash0 :: dashboard where
  "dash0 = \<lparr>userId = Some ''user_1'',
            chats = [\<lparr>chat_id = ''16'', chat_messages = [], createdAt = 3, updatedAt = 3\<rparr>,
                     \<lparr>chat_id = ''17'', chat_messages = [], createdAt = 5, updatedAt = 5\<rparr>],
            currentChatId = ''17'', messages = [], input = ''write a tweet about Mars'',
            isLoading = False, tone = Witty, goal = GoalNone, audience = AudienceNone,
            currentStreamingMessage = []\<rparr>"

definition world0 :: world where
  "world0 = \<lparr>backend = srv0, provider = provider_ok, clock = (\<lambda>n. 20 + n), ticks = 0,
             toISOString = (\<lambda>t. CHR ''T'' # replicate t (CHR ''I'')), calls = []\<rparr>"




section \<open>Splitting strings\<close>

lemma js_split_ne: "js_split d s \<noteq> []"
  by (induction s) (auto split: list.splits)

lemma js_split_app: "js_split d (a @ d # b) = js_split d a @ js_split d b"
  by (induction a) (auto split: list.splits simp: js_split_ne)

lemma js_split_pre: "d \<notin> set a \<Longrightarrow> js_split d (a @ b) = (a @ hd (js_split d b)) # tl (js_split d b)"
  by (induction a) (auto split: list.splits simp: js_split_ne)

lemma js_split_none: "d \<notin> set a \<Longrightarrow> js_split d a = [a]"
  using js_split_pre[of d a "[]"] by simp

section \<open>Serialization round trip\<close>

lemma hex_value_digit: "d < 16 \<Longrightarrow> hex_value (hex_digit d) = Some d"
  by (auto simp: hex_value_def hex_digit_def Let_def)

lemma hex4_control:
  assumes "(of_char c :: nat) < 32"
  shows "hex4 (CHR ''0'') (CHR ''0'') (hex_digit (of_char c div 16)) (hex_digit (of_char c mod 16))
         = Some (of_char c)"
proof -
  have z: "hex_value (CHR ''0'') = Some 0"
    by (simp add: hex_value_def)
  have a: "hex_value (hex_digit (of_char c div 16)) = Some (of_char c div 16)"
    using assms by (intro hex_value_digit) simp
  have b: "hex_value (hex_digit (of_char c mod 16)) = Some (of_char c mod 16)"
    by (intro hex_value_digit) simp
  show ?thesis
    by (simp add: hex4_def z a b)
qed

lemma parse_chars_escape:
  assumes "parse_chars r = Some (s, rest)"
  shows "parse_chars (escape_char c @ r) = Some (c # s, rest)"
proof -
  consider (q) "c = dquote" | (b) "c = backslash" | (s) "c \<in> {CHR 0x08, CHR 0x0C, CHR 0x0A, CHR 0x0D, CHR 0x09}"
    | (u) "c \<noteq> dquote" "c \<noteq> backslash" "c \<notin> {CHR 0x08, CHR 0x0C, CHR 0x0A, CHR 0x0D, CHR 0x09}" "(of_char c :: nat) < 32"
    | (p) "c \<noteq> dquote" "c \<noteq> backslash" "\<not> (of_char c :: nat) < 32"
    by auto
  then show ?thesis
  proof cases
    case q
    then show ?thesis using assms
      by (simp add: escape_char_def unescape_def dquote_def backslash_def)
  next
    case b
    then show ?thesis using assms
      by (simp add: escape_char_def unescape_def dquote_def backslash_def)
  next
    case s
    then show ?thesis using assms
      by (auto simp: escape_char_def unescape_def dquote_def backslash_def)
  next
    case u
    have l: "low_surrogate (of_char c) r = None"
      using u(4) by (simp add: low_surrogate_def)
    have e: "utf8 (of_char c) = [c]"
      using u(4) by (simp add: utf8_def)
    show ?thesis using u assms hex4_control[OF u(4)]
      by (simp add: escape_char_def dquote_def backslash_def l e)
  next
    case p
    then have "escape_char c = [c]"
      by (auto simp: escape_char_def)
    then show ?thesis using assms p
      by simp
  qed
qed

lemma parse_chars_quoted:
  "parse_chars (concat (map escape_char s) @ dquote # rest) = Some (s, rest)"
  by (induction s) (simp_all add: parse_chars_escape)

lemma skip_ws_not_ws: "\<not> is_ws c \<Longrightarrow> skip_ws (c # s) = c # s"
  by (simp add: skip_ws_def)

lemma number_ok_start:
  assumes "number_ok s"
  shows "\<exists>c r. s = c # r \<and> (c = CHR ''-'' \<or> is_digit c)"
proof (cases s)
  case Nil
  with assms show ?thesis by (simp add: number_ok_def)
next
  case (Cons c r)
  with assms show ?thesis
    by (auto simp: number_ok_def is_digit_def split: if_splits)
qed

lemma stringify_start: "wf_json v \<Longrightarrow> \<exists>c s. stringify v = c # s \<and> value_start c"
proof (cases v)
  case (JNumber l)
  assume "wf_json v"
  with JNumber number_ok_start[of l] show ?thesis
    by (auto simp: value_start_def)
qed (auto simp: value_start_def quote_def)

lemma value_start_facts:
  assumes "value_start c"
  shows "\<not> is_ws c" "c \<noteq> CHR '']''" "c \<noteq> CHR ''}''"
  using assms by (auto simp: value_start_def is_ws_def dquote_def is_digit_def)

lemma commas_start:
  assumes "xs \<noteq> []" and "\<forall>x\<in>set xs. \<exists>c s. x = c # s \<and> P c"
  shows "\<exists>c s. commas xs = c # s \<and> P c"
proof (cases xs)
  case Nil
  with assms show ?thesis by simp
next
  case (Cons x ys)
  then obtain c s where "x = c # s" "P c" using assms by auto
  then show ?thesis using Cons by (cases ys) auto
qed

lemma skip_ws_token:
  "skip_ws (dquote # s) = dquote # s"
  "skip_ws (CHR '','' # s) = CHR '','' # s"
  "skip_ws (CHR '':'' # s) = CHR '':'' # s"
  "skip_ws (CHR '']'' # s) = CHR '']'' # s"
  "skip_ws (CHR ''}'' # s) = CHR ''}'' # s"
  "skip_ws (CHR ''['' # s) = CHR ''['' # s"
  "skip_ws (CHR ''{'' # s) = CHR ''{'' # s"
  "skip_ws (CHR ''n'' # s) = CHR ''n'' # s"
  "skip_ws (CHR ''t'' # s) = CHR ''t'' # s"
  "skip_ws (CHR ''f'' # s) = CHR ''f'' # s"
  by (simp_all add: skip_ws_def is_ws_def dquote_def)

lemma dquote_neq:
  "dquote \<noteq> CHR ''n''" "dquote \<noteq> CHR ''t''" "dquote \<noteq> CHR ''f''"
  "dquote \<noteq> CHR '']''" "dquote \<noteq> CHR ''}''"
  by (simp_all add: dquote_def)

lemma delimited_token:
  "delimited (CHR '','' # s)" "delimited (CHR '']'' # s)" "delimited (CHR ''}'' # s)" "delimited []"
  by (simp_all add: delimited_def number_char_def is_digit_def)

lemma munch_number:
  assumes "list_all number_char l" and "delimited rest"
  shows "takeWhile number_char (l @ rest) = l" "dropWhile number_char (l @ rest) = rest"
proof -
  have a: "\<And>x. x \<in> set l \<Longrightarrow> number_char x"
    using assms(1) by (simp add: list_all_iff)
  have t: "takeWhile number_char rest = []" and d: "dropWhile number_char rest = rest"
    using assms(2) by (cases rest; simp add: delimited_def)+
  show "takeWhile number_char (l @ rest) = l"
    using takeWhile_append2[of l number_char rest] a t by simp
  show "dropWhile number_char (l @ rest) = rest"
    using dropWhile_append2[of l number_char rest] a d by simp
qed

lemma number_roundtrip:
  assumes "number_ok l" and "list_all number_char l" and "delimited rest"
  shows "parse_value (Suc n) (l @ rest) = Some (JNumber l, rest)"
proof -
  obtain c r where l: "l = c # r" and c: "c = CHR ''-'' \<or> is_digit c"
    using number_ok_start[OF assms(1)] by blast
  have nws: "\<not> is_ws c" and ne: "c \<noteq> CHR ''n''" "c \<noteq> CHR ''t''" "c \<noteq> CHR ''f''" "c \<noteq> dquote"
    "c \<noteq> CHR ''[''" "c \<noteq> CHR ''{''"
    using c by (auto simp: is_ws_def is_digit_def dquote_def)
  have m: "takeWhile number_char (c # r @ rest) = c # r" "dropWhile number_char (c # r @ rest) = rest"
    using munch_number[OF assms(2,3)] l by simp_all
  have s: "skip_ws (c # r @ rest) = c # r @ rest"
    using nws by (rule skip_ws_not_ws)
  have ok: "number_ok (c # r)"
    using assms(1) l by simp
  show ?thesis
    unfolding l using ok c ne
    by (simp add: s m Let_def del: takeWhile.simps dropWhile.simps)
qed

lemma elements_roundtrip:
  assumes "xs \<noteq> []"
    and "\<And>x n rest. x \<in> set xs \<Longrightarrow> length (stringify x) \<le> n \<Longrightarrow> delimited rest \<Longrightarrow>
            parse_value n (stringify x @ rest) = Some (x, rest)"
    and "length (commas (map stringify xs)) < n"
  shows "parse_elements n (commas (map stringify xs) @ CHR '']'' # rest) = Some (xs, rest)"
  using assms
proof (induction xs arbitrary: n rule: list_nonempty_induct)
  case (single x)
  then obtain m where n: "n = Suc m" and m: "length (stringify x) \<le> m"
    by (cases n) auto
  have "parse_value m (stringify x @ CHR '']'' # rest) = Some (x, CHR '']'' # rest)"
    using single m by (simp add: delimited_token)
  then show ?case
    by (simp add: n skip_ws_token)
next
  case (cons x xs)
  then obtain y ys where xs: "xs = y # ys"
    by (cases xs) auto
  obtain m where n: "n = Suc m" and m: "length (stringify x) + length (commas (map stringify xs)) < m"
    using cons.prems(2) xs by (cases n) auto
  have 1: "parse_value m (stringify x @ CHR '','' # commas (map stringify xs) @ CHR '']'' # rest)
           = Some (x, CHR '','' # commas (map stringify xs) @ CHR '']'' # rest)"
    using cons.prems(1)[of x m] m by (simp add: delimited_token)
  have 2: "parse_elements m (commas (map stringify xs) @ CHR '']'' # rest) = Some (xs, rest)"
  proof (rule cons.IH)
    fix x' n' rest'
    assume "x' \<in> set xs" and "length (stringify x') \<le> n'" and "delimited rest'"
    then show "parse_value n' (stringify x' @ rest') = Some (x', rest')"
      using cons.prems(1)[of x' n' rest'] by simp
  next
    show "length (commas (map stringify xs)) < m"
      using m by simp
  qed
  show ?case
    using 1 2 by (simp add: n xs skip_ws_token)
qed

lemma members_roundtrip:
  assumes "kvs \<noteq> []"
    and "\<And>k v n rest. (k, v) \<in> set kvs \<Longrightarrow> length (stringify v) \<le> n \<Longrightarrow> delimited rest \<Longrightarrow>
            parse_value n (stringify v @ rest) = Some (v, rest)"
    and "length (commas (map (\<lambda>(k, v). quote k @ CHR '':'' # stringify v) kvs)) < n"
  shows "parse_members n (commas (map (\<lambda>(k, v). quote k @ CHR '':'' # stringify v) kvs) @ CHR ''}'' # rest)
         = Some (kvs, rest)"
  using assms
proof (induction kvs arbitrary: n rule: list_nonempty_induct)
  case (single kv)
  obtain k v where kv: "kv = (k, v)" by (cases kv)
  obtain m where n: "n = Suc m" and m: "length (stringify v) \<le> m"
    using single.prems(2) kv by (cases n) auto
  have "parse_value m (stringify v @ CHR ''}'' # rest) = Some (v, CHR ''}'' # rest)"
    using single.prems(1)[of k v m] m kv by (simp add: delimited_token)
  then show ?case
    by (simp add: n kv quote_def parse_chars_quoted skip_ws_token)
next
  case (cons kv kvs)
  obtain k v where kv: "kv = (k, v)" by (cases kv)
  obtain y ys where kvs: "kvs = y # ys"
    using cons.hyps by (cases kvs) auto
  let ?f = "\<lambda>(k, v). quote k @ CHR '':'' # stringify v"
  obtain m where n: "n = Suc m"
    and m: "length (stringify v) + length (commas (map ?f kvs)) < m"
    using cons.prems(2) kv kvs by (cases n) auto
  have 1: "parse_value m (stringify v @ CHR '','' # commas (map ?f kvs) @ CHR ''}'' # rest)
           = Some (v, CHR '','' # commas (map ?f kvs) @ CHR ''}'' # rest)"
    using cons.prems(1)[of k v m] m kv by (simp add: delimited_token)
  have 2: "parse_members m (commas (map ?f kvs) @ CHR ''}'' # rest) = Some (kvs, rest)"
  proof (rule cons.IH)
    fix k' v' n' rest'
    assume "(k', v') \<in> set kvs" and "length (stringify v') \<le> n'" and "delimited rest'"
    then show "parse_value n' (stringify v' @ rest') = Some (v', rest')"
      using cons.prems(1)[of k' v' n' rest'] by simp
  next
    show "length (commas (map ?f kvs)) < m"
      using m by simp
  qed
  show ?case
    using 1 2
    by (simp add: n kv kvs quote_def parse_chars_quoted skip_ws_token)
qed

lemma value_roundtrip:
  "wf_json v \<Longrightarrow> length (stringify v) \<le> n \<Longrightarrow> delimited rest \<Longrightarrow>
   parse_value n (stringify v @ rest) = Some (v, rest)"
proof (induction v arbitrary: n rest)
  case JNull
  then obtain m where "n = Suc m" by (cases n) auto
  then show ?case by (simp add: skip_ws_token keyword_def)
next
  case (JBool b)
  then obtain m where "n = Suc m" by (cases n) (auto split: if_splits)
  then show ?case by (simp add: skip_ws_token keyword_def)
next
  case (JNumber l)
  then obtain c r where "l = c # r"
    using number_ok_start[of l] by auto
  with JNumber obtain m where n: "n = Suc m" by (cases n) auto
  have "number_ok l" "list_all number_char l"
    using JNumber.prems(1) by simp_all
  then have "parse_value (Suc m) (l @ rest) = Some (JNumber l, rest)"
    using JNumber.prems(3) by (rule number_roundtrip)
  then show ?case
    unfolding n stringify.simps .
next
  case (JString s)
  then obtain m where "n = Suc m" by (cases n) (auto simp: quote_def)
  then show ?case
    by (simp add: quote_def skip_ws_token dquote_neq parse_chars_quoted)
next
  case (JArray xs)
  then obtain m where n: "n = Suc m" and m: "length (commas (map stringify xs)) < m"
    by (cases n) auto
  show ?case
  proof (cases "xs = []")
    case True
    then show ?thesis by (simp add: n skip_ws_token dquote_def)
  next
    case False
    have wf: "\<And>x. x \<in> set xs \<Longrightarrow> wf_json x"
      using JArray.prems(1) by (simp add: list_all_iff)
    then have "\<forall>x\<in>set (map stringify xs). \<exists>c s. x = c # s \<and> value_start c"
      using stringify_start by auto
    then obtain c s where c: "commas (map stringify xs) = c # s" "value_start c"
      using commas_start[of "map stringify xs" value_start] False by auto
    have "parse_elements m (commas (map stringify xs) @ CHR '']'' # rest) = Some (xs, rest)"
      using False JArray.IH m wf by (intro elements_roundtrip) auto
    then show ?thesis
      using c value_start_facts[OF c(2)]
      by (auto simp: n skip_ws_token skip_ws_not_ws dquote_def value_start_def)
  qed
next
  case (JObject kvs)
  let ?f = "\<lambda>(k, v). quote k @ CHR '':'' # stringify v"
  from JObject.prems obtain m where n: "n = Suc m" and m: "length (commas (map ?f kvs)) < m"
    by (cases n) auto
  show ?case
  proof (cases "kvs = []")
    case True
    then show ?thesis by (simp add: n skip_ws_token dquote_def)
  next
    case False
    have "\<forall>x\<in>set (map ?f kvs). \<exists>c s. x = c # s \<and> c = dquote"
      by (auto simp: quote_def)
    then obtain s where c: "commas (map ?f kvs) = dquote # s"
      using commas_start[of "map ?f kvs" "\<lambda>c. c = dquote"] False by auto
    have "parse_members m (commas (map ?f kvs) @ CHR ''}'' # rest) = Some (kvs, rest)"
    proof (intro members_roundtrip False m)
      fix k v n rest
      assume "(k, v) \<in> set kvs" and "length (stringify v) \<le> n" and "delimited rest"
      moreover from this JObject.prems(1) have "wf_json v"
        by (auto simp: list_all_iff)
      ultimately show "parse_value n (stringify v @ rest) = Some (v, rest)"
        using JObject.IH[of "(k, v)" v n rest] by auto
    qed
    then show ?thesis
      using c by (simp add: n skip_ws_token dquote_neq) (simp add: dquote_def)
  qed
qed

lemma JSON_roundtrip: "wf_json v \<Longrightarrow> JSON_parse (stringify v) = Some v"
  using value_roundtrip[of v "Suc (length (stringify v))" "[]"]
  by (simp add: JSON_parse_def skip_ws_def delimited_token)

lemma skip_ws_length: "length (skip_ws s) \<le> length s"
  by (simp add: skip_ws_def length_dropWhile_le)

lemma parse_chars_u:
  "parse_chars (backslash # CHR ''u'' # h1 # h2 # h3 # h4 # t) =
     (case hex4 h1 h2 h3 h4 of
        None \<Rightarrow> None
      | Some n \<Rightarrow>
          (case low_surrogate n t of
             Some m \<Rightarrow>
               (case parse_chars (drop 6 t) of
                  None \<Rightarrow> None
                | Some (str, rest) \<Rightarrow>
                    Some (utf8 (0x10000 + (n - 0xD800) * 0x400 + (m - 0xDC00)) @ str, rest))
           | None \<Rightarrow>
               (case parse_chars t of
                  None \<Rightarrow> None
                | Some (str, rest) \<Rightarrow> Some (utf8 n @ str, rest))))"
  by (simp add: backslash_def dquote_def)

lemma parse_chars_u_short:
  "length t < 4 \<Longrightarrow> parse_chars (backslash # CHR ''u'' # t) = None"
  by (auto simp: backslash_def dquote_def split: list.splits)

lemma long_list: "\<not> length t < 4 \<Longrightarrow> \<exists>h1 h2 h3 h4 t'. t = h1 # h2 # h3 # h4 # (t' :: 'a list)"
  by (auto simp: not_less Suc_le_length_iff numeral_eq_Suc)

lemma parse_chars_length: "parse_chars s = Some (str, r) \<Longrightarrow> length r < length s"
proof (induction "length s" arbitrary: s str r rule: less_induct)
  case less
  note IH = less.hyps
  note p = less.prems
  show ?case
  proof (cases s)
    case Nil
    with p show ?thesis by simp
  next
    case (Cons c r0)
    show ?thesis
    proof (cases "c = dquote")
      case True
      with p Cons show ?thesis by simp
    next
      case nq: False
      show ?thesis
      proof (cases "c = backslash")
        case True
        then obtain e r' where r0: "r0 = e # r'"
          using p nq Cons by (cases r0) auto
        show ?thesis
        proof (cases "e = CHR ''u''")
          case u: True
          have "\<not> length r' < 4"
            using p parse_chars_u_short[of r'] Cons True r0 u by auto
          then obtain h1 h2 h3 h4 t where r': "r' = h1 # h2 # h3 # h4 # t"
            using long_list by blast
          have s: "s = backslash # CHR ''u'' # h1 # h2 # h3 # h4 # t"
            using Cons True r0 u r' by simp
          obtain n where h: "hex4 h1 h2 h3 h4 = Some n"
            using p unfolding s parse_chars_u by (cases "hex4 h1 h2 h3 h4") auto
          show ?thesis
          proof (cases "low_surrogate n t")
            case None
            then obtain str' where q: "parse_chars t = Some (str', r)"
              using p unfolding s parse_chars_u h by (auto split: option.splits)
            have "length t < length s"
              using s by simp
            from IH[OF this q] show ?thesis
              using s by simp
          next
            case (Some m)
            then obtain str' where q: "parse_chars (drop 6 t) = Some (str', r)"
              using p unfolding s parse_chars_u h by (auto split: option.splits)
            have "length (drop 6 t) < length s"
              using s by simp
            from IH[OF this q] show ?thesis
              using s by simp
          qed
        next
          case nu: False
          then obtain ch str' where un: "unescape e = Some ch" and q: "parse_chars r' = Some (str', r)"
            using p nq True r0 Cons by (auto split: option.splits)
          have "length r' < length s"
            using Cons r0 by simp
          from IH[OF this q] show ?thesis
            using Cons r0 by simp
        qed
      next
        case nb: False
        then have nc: "\<not> (of_char c :: nat) < 32"
          using p nq Cons by (auto split: if_splits)
        then obtain str' where q: "parse_chars r0 = Some (str', r)"
          using p nq nb Cons by (auto split: option.splits)
        have "length r0 < length s"
          using Cons by simp
        from IH[OF this q] show ?thesis
          using Cons by simp
      qed
    qed
  qed
qed

lemma keyword_length: "keyword w v s = Some (x, r) \<Longrightarrow> length r \<le> length s"
  by (auto simp: keyword_def split: if_splits)

lemma parse_value_flat:
  assumes "skip_ws s = c # r0" and "c \<noteq> CHR ''[''" and "c \<noteq> CHR ''{''"
  shows "parse_value (Suc m) s = parse_value (Suc n) s"
  using assms by simp

lemma parse_value_flat_length:
  assumes "skip_ws s = c # r0" and "c \<noteq> CHR ''[''" and "c \<noteq> CHR ''{''"
    and "parse_value (Suc n) s = Some (v, r)"
  shows "length r \<le> length r0"
proof -
  consider (kw) "c = CHR ''n'' \<or> c = CHR ''t'' \<or> c = CHR ''f''"
    | (str) "c \<noteq> CHR ''n''" "c \<noteq> CHR ''t''" "c \<noteq> CHR ''f''" "c = dquote"
    | (num) "c \<noteq> CHR ''n''" "c \<noteq> CHR ''t''" "c \<noteq> CHR ''f''" "c \<noteq> dquote" "c = CHR ''-'' \<or> is_digit c"
    | (other) "c \<noteq> CHR ''n''" "c \<noteq> CHR ''t''" "c \<noteq> CHR ''f''" "c \<noteq> dquote" "\<not> (c = CHR ''-'' \<or> is_digit c)"
    by blast
  then show ?thesis
  proof cases
    case kw
    then show ?thesis
      using assms by (auto dest: keyword_length)
  next
    case str
    then show ?thesis
      using assms by (auto split: option.splits dest: parse_chars_length)
  next
    case num
    then have "number_char c"
      by (auto simp: number_char_def)
    then have "dropWhile number_char (c # r0) = dropWhile number_char r0"
      by simp
    moreover have "length (dropWhile number_char r0) \<le> length r0"
      by (rule length_dropWhile_le)
    ultimately show ?thesis
      using assms num by (auto simp: Let_def split: if_splits simp del: dropWhile.simps)
  next
    case other
    then show ?thesis
      using assms by simp
  qed
qed

lemma fuel_enough:
  "(\<forall>s v r. parse_value n s = Some (v, r) \<longrightarrow>
       length r < length s \<and> (\<forall>m. length s - length r \<le> Suc m \<longrightarrow> parse_value (Suc m) s = Some (v, r)))
   \<and> (\<forall>s vs r. parse_elements n s = Some (vs, r) \<longrightarrow>
       length r < length s \<and> (\<forall>m. length s - length r \<le> Suc m \<longrightarrow> parse_elements (Suc m) s = Some (vs, r)))
   \<and> (\<forall>s kvs r. parse_members n s = Some (kvs, r) \<longrightarrow>
       length r < length s \<and> (\<forall>m. length s - length r \<le> Suc m \<longrightarrow> parse_members (Suc m) s = Some (kvs, r)))"
proof (induction n)
  case 0
  then show ?case by simp
next
  case (Suc n)
  have IHv: "length r < length s \<and> (\<forall>m. length s - length r \<le> Suc m \<longrightarrow> parse_value (Suc m) s = Some (v, r))"
    if "parse_value n s = Some (v, r)" for s v r
    using Suc that by blast
  have IHe: "length r < length s \<and> (\<forall>m. length s - length r \<le> Suc m \<longrightarrow> parse_elements (Suc m) s = Some (vs, r))"
    if "parse_elements n s = Some (vs, r)" for s vs r
    using Suc that by blast
  have IHm: "length r < length s \<and> (\<forall>m. length s - length r \<le> Suc m \<longrightarrow> parse_members (Suc m) s = Some (kvs, r))"
    if "parse_members n s = Some (kvs, r)" for s kvs r
    using Suc that by blast
  have V: "length r < length s \<and> (\<forall>m. length s - length r \<le> Suc m \<longrightarrow> parse_value (Suc m) s = Some (v, r))"
    if a: "parse_value (Suc n) s = Some (v, r)" for s v r
  proof -
    obtain c r0 where sk: "skip_ws s = c # r0"
      using a by (auto split: list.splits)
    have ls: "Suc (length r0) \<le> length s"
      using skip_ws_length[of s] sk by simp
    consider (flat) "c \<noteq> CHR ''[''" "c \<noteq> CHR ''{''"
      | (empty) c' r' where "c = CHR ''[''" "skip_ws r0 = c' # r'" "c' = CHR '']''"
      | (arr) c' r' where "c = CHR ''[''" "skip_ws r0 = c' # r'" "c' \<noteq> CHR '']''"
      | (emptyo) c' r' where "c = CHR ''{''" "skip_ws r0 = c' # r'" "c' = CHR ''}''"
      | (obj) c' r' where "c = CHR ''{''" "skip_ws r0 = c' # r'" "c' \<noteq> CHR ''}''"
      using a sk by (cases "skip_ws r0") (auto simp: dquote_def split: if_splits)
    then show ?thesis
    proof cases
      case flat
      have "length r \<le> length r0"
        using sk flat a by (rule parse_value_flat_length)
      moreover have "parse_value (Suc m) s = Some (v, r)" for m
        using parse_value_flat[OF sk flat, of m n] a by simp
      ultimately show ?thesis
        using ls by simp
    next
      case empty
      then have "r = r'" "v = JArray []"
        using a sk by (simp_all add: dquote_def)
      moreover have "length r' < length r0"
        using skip_ws_length[of r0] empty by simp
      ultimately show ?thesis
        using sk empty ls by (simp add: dquote_def)
    next
      case arr
      then obtain vs where e: "parse_elements n r0 = Some (vs, r)" and v: "v = JArray vs"
        using a sk by (auto simp: dquote_def split: option.splits)
      note ih = IHe[OF e]
      have "parse_value (Suc m) s = Some (v, r)" if m: "length s - length r \<le> Suc m" for m
      proof -
        obtain m' where m': "m = Suc m'" and "length r0 - length r \<le> Suc m'"
          using m ih ls by (cases m) auto
        then have "parse_elements m r0 = Some (vs, r)"
          using ih by simp
        then show ?thesis
          using sk arr v by (simp add: dquote_def)
      qed
      then show ?thesis
        using ih ls by simp
    next
      case emptyo
      then have "r = r'" "v = JObject []"
        using a sk by (simp_all add: dquote_def)
      moreover have "length r' < length r0"
        using skip_ws_length[of r0] emptyo by simp
      ultimately show ?thesis
        using sk emptyo ls by (simp add: dquote_def)
    next
      case obj
      then obtain kvs where e: "parse_members n r0 = Some (kvs, r)" and v: "v = JObject kvs"
        using a sk by (auto simp: dquote_def split: option.splits)
      note ih = IHm[OF e]
      have "parse_value (Suc m) s = Some (v, r)" if m: "length s - length r \<le> Suc m" for m
      proof -
        obtain m' where m': "m = Suc m'" and "length r0 - length r \<le> Suc m'"
          using m ih ls by (cases m) auto
        then have "parse_members m r0 = Some (kvs, r)"
          using ih by simp
        then show ?thesis
          using sk obj v by (simp add: dquote_def)
      qed
      then show ?thesis
        using ih ls by simp
    qed
  qed
  have E: "length r < length s \<and> (\<forall>m. length s - length r \<le> Suc m \<longrightarrow> parse_elements (Suc m) s = Some (vs, r))"
    if a: "parse_elements (Suc n) s = Some (vs, r)" for s vs r
  proof -
    obtain v r1 where pv: "parse_value n s = Some (v, r1)"
      using a by (auto split: option.splits)
    obtain c r2 where sk: "skip_ws r1 = c # r2"
      using a pv by (auto split: list.splits)
    have l2: "Suc (length r2) \<le> length r1"
      using skip_ws_length[of r1] sk by simp
    note ihv = IHv[OF pv]
    consider (more) vs' where "c = CHR '',''" "parse_elements n r2 = Some (vs', r)" "vs = v # vs'"
      | (last) "c = CHR '']''" "vs = [v]" "r = r2"
      using a pv sk by (auto split: option.splits if_splits)
    then show ?thesis
    proof cases
      case more
      note ihe = IHe[OF more(2)]
      have "parse_elements (Suc m) s = Some (vs, r)" if m: "length s - length r \<le> Suc m" for m
      proof -
        obtain m' where m': "m = Suc m'" and 1: "length s - length r1 \<le> Suc m'"
          and 2: "length r2 - length r \<le> Suc m'"
          using m ihv ihe l2 by (cases m) auto
        have "parse_value m s = Some (v, r1)" "parse_elements m r2 = Some (vs', r)"
          using ihv ihe 1 2 m' by simp_all
        then show ?thesis
          using sk more by simp
      qed
      then show ?thesis
        using ihv ihe l2 by simp
    next
      case last
      have "parse_elements (Suc m) s = Some (vs, r)" if m: "length s - length r \<le> Suc m" for m
      proof -
        obtain m' where m': "m = Suc m'" and 1: "length s - length r1 \<le> Suc m'"
          using m ihv l2 last by (cases m) auto
        have "parse_value m s = Some (v, r1)"
          using ihv 1 m' by simp
        then show ?thesis
          using sk last by simp
      qed
      then show ?thesis
        using ihv l2 last by simp
    qed
  qed
  have M: "length r < length s \<and> (\<forall>m. length s - length r \<le> Suc m \<longrightarrow> parse_members (Suc m) s = Some (kvs, r))"
    if a: "parse_members (Suc n) s = Some (kvs, r)" for s kvs r
  proof -
    obtain c r0 where sk0: "skip_ws s = c # r0" and c: "c = dquote"
      using a by (auto split: list.splits if_splits)
    obtain k r1 where pk: "parse_chars r0 = Some (k, r1)"
      using a sk0 c by (auto split: option.splits)
    obtain c1 r2 where sk1: "skip_ws r1 = c1 # r2" and c1: "c1 = CHR '':''"
      using a sk0 c pk by (auto split: list.splits if_splits)
    obtain v r3 where pv: "parse_value n r2 = Some (v, r3)"
      using a sk0 c pk sk1 c1 by (auto split: option.splits)
    obtain c3 r4 where sk3: "skip_ws r3 = c3 # r4"
      using a sk0 c pk sk1 c1 pv by (auto split: list.splits)
    have l0: "Suc (length r0) \<le> length s"
      using skip_ws_length[of s] sk0 by simp
    have l1: "length r1 < length r0"
      using pk by (rule parse_chars_length)
    have l2: "Suc (length r2) \<le> length r1"
      using skip_ws_length[of r1] sk1 by simp
    have l4: "Suc (length r4) \<le> length r3"
      using skip_ws_length[of r3] sk3 by simp
    note ihv = IHv[OF pv]
    consider (more) kvs' where "c3 = CHR '',''" "parse_members n r4 = Some (kvs', r)" "kvs = (k, v) # kvs'"
      | (last) "c3 = CHR ''}''" "kvs = [(k, v)]" "r = r4"
      using a sk0 c pk sk1 c1 pv sk3 by (auto split: option.splits if_splits)
    then show ?thesis
    proof cases
      case more
      note ihm = IHm[OF more(2)]
      have "parse_members (Suc m) s = Some (kvs, r)" if m: "length s - length r \<le> Suc m" for m
      proof -
        obtain m' where m': "m = Suc m'" and 1: "length r2 - length r3 \<le> Suc m'"
          and 2: "length r4 - length r \<le> Suc m'"
          using m ihv ihm l0 l1 l2 l4 by (cases m) auto
        have "parse_value m r2 = Some (v, r3)" "parse_members m r4 = Some (kvs', r)"
          using ihv ihm 1 2 m' by simp_all
        then show ?thesis
          using sk0 c pk sk1 c1 sk3 more by simp
      qed
      then show ?thesis
        using ihv ihm l0 l1 l2 l4 by simp
    next
      case last
      have "parse_members (Suc m) s = Some (kvs, r)" if m: "length s - length r \<le> Suc m" for m
      proof -
        obtain m' where m': "m = Suc m'" and 1: "length r2 - length r3 \<le> Suc m'"
          using m ihv l0 l1 l2 l4 last by (cases m) auto
        have "parse_value m r2 = Some (v, r3)"
          using ihv 1 m' by simp
        then show ?thesis
          using sk0 c pk sk1 c1 sk3 last by simp
      qed
      then show ?thesis
        using ihv l0 l1 l2 l4 last by simp
    qed
  qed
  from V E M show ?case by blast
qed

text \<open>The fuel that \<open>JSON_parse\<close> gives is enough: a text that parses with any fuel
  parses with the length of the text.\<close>

lemma JSON_parse_fuel:
  assumes "parse_value n s = Some (v, r)" and "skip_ws r = []"
  shows "JSON_parse s = Some v"
proof -
  have "parse_value (Suc (length s)) s = Some (v, r)"
    using fuel_enough[of n] assms(1) by (auto simp: le_diff_conv)
  then show ?thesis
    using assms(2) by (simp add: JSON_parse_def)
qed

declare stringify.simps [simp del]

section \<open>Properties of the persistence route and facade\<close>

lemma stringify_nonempty: "wf_json v \<Longrightarrow> stringify v \<noteq> []"
  using stringify_start[of v] by auto

lemma wf_strings [simp]: "list_all wf_json (map JString ids)"
  by (induction ids) simp_all

lemma chatDataJson_wf [simp]: "wf_json (chatDataJson cd)"
  by (simp add: chatDataJson_def messageJson_def list_all_iff)

lemma ok_simps:
  "ok (NextResponse_json j 200)" "\<not> ok internal_server_error"
  "\<not> ok (NextResponse_json j 401)" "\<not> ok (NextResponse_json j 400)"
  by (simp_all add: ok_def NextResponse_json_def internal_server_error_def)

lemma body_json: "wf_json j \<Longrightarrow> JSON_parse (body (NextResponse_json j st)) = Some j"
  by (simp add: NextResponse_json_def JSON_roundtrip)

lemma chat_POST_save:
  "wf_json d \<Longrightarrow> chat_POST st (Some u)
     (stringify (JObject [(''action'', JString ''save''), (''chatId'', JString c), (''chatData'', d)])) =
   (case PutObject st (u @ ''/chats/'' @ c @ ''/data.json'') (stringify d) of
      Inl e \<Rightarrow> (internal_server_error, st)
    | Inr st' \<Rightarrow> (NextResponse_json (JObject [(''success'', JBool True)]) 200, st'))"
  by (simp add: chat_POST_def JSON_roundtrip field_def template_def)

lemma chat_POST_get:
  "chat_POST st (Some u)
     (stringify (JObject [(''action'', JString ''get''), (''chatId'', JString c)])) =
   (case GetObject st (u @ ''/chats/'' @ c @ ''/data.json'') of
      Inl e \<Rightarrow> (internal_server_error, st)
    | Inr data \<Rightarrow>
        if data = [] then (NextResponse_json (JObject [(''data'', JNull)]) 200, st)
        else (case JSON_parse data of
                None \<Rightarrow> (internal_server_error, st)
              | Some v \<Rightarrow> (NextResponse_json (JObject [(''data'', v)]) 200, st)))"
  by (simp add: chat_POST_def JSON_roundtrip field_def template_def)

lemma chat_POST_list:
  "chat_POST st (Some u) (stringify (JObject [(''action'', JString ''list'')])) =
   (case ListObjectsV2 st (u @ ''/chats/'') (CHR ''/'') of
      Inl e \<Rightarrow> (internal_server_error, st)
    | Inr commonPrefixes \<Rightarrow>
        (NextResponse_json (JObject [(''chatIds'', JArray (map JString
            (case commonPrefixes of None \<Rightarrow> []
             | Some ps \<Rightarrow> filter (\<lambda>s. s \<noteq> []) (map chat_id_of_prefix ps))))]) 200, st))"
  by (simp add: chat_POST_def JSON_roundtrip field_def template_def Let_def split: sum.splits)

lemma chat_POST_unauthorized:
  "chat_POST st None b = (NextResponse_json (JObject [(''error'', JString ''Unauthorized'')]) 401, st)"
  by (simp add: chat_POST_def)

lemma saveChatToS3_ok:
  assumes "online (bucket srv)" and "currentUser srv = Some u"
  shows "saveChatToS3 srv uid chatId cd =
         (Inr (), srv\<lparr>bucket := (bucket srv)\<lparr>objects :=
             AList.update (u @ ''/chats/'' @ chatId @ ''/data.json'') (stringify (chatDataJson cd))
               (objects (bucket srv))\<rparr>\<rparr>)"
  using assms
  by (simp add: saveChatToS3_def fetch_api_chat_def chat_POST_save PutObject_def ok_simps)

lemma getChatFromS3_found:
  assumes "online (bucket srv)" and "currentUser srv = Some u"
    and "map_of (objects (bucket srv)) (u @ ''/chats/'' @ chatId @ ''/data.json'') = Some (stringify v)"
    and "wf_json v"
  shows "getChatFromS3 srv uid chatId = (Some v, srv)"
  using assms
  by (simp add: getChatFromS3_def fetch_api_chat_def chat_POST_get GetObject_def ok_simps
      stringify_nonempty JSON_roundtrip body_json field_def)

lemma role_string_inj: "role_string a = role_string b \<Longrightarrow> a = b"
  by (cases a; cases b) (simp_all add: role_string_def)

lemma messageJson_inj: "messageJson a = messageJson b \<Longrightarrow> a = b"
  by (cases a; cases b) (auto simp: messageJson_def dest: role_string_inj)

lemma chatDataJson_inj: "chatDataJson a = chatDataJson b \<Longrightarrow> a = b"
proof -
  assume eq: "chatDataJson a = chatDataJson b"
  have "inj messageJson"
    by (rule injI) (rule messageJson_inj)
  then have "map messageJson x = map messageJson y \<Longrightarrow> x = y" for x y
    by (simp add: inj_map_eq_map)
  with eq show ?thesis
    by (cases a; cases b) (auto simp: chatDataJson_def)
qed

text \<open>
  Claim C1. With the store reachable and a user signed in, \<open>saveChatToS3\<close> succeeds and
  a following \<open>getChatFromS3\<close> for the same chat id returns the JavaScript object of
  the record that was saved; that object determines the record. The \<open>userId\<close>
  arguments play no part.
\<close>

theorem save_then_load:
  assumes "online (bucket srv)" and "currentUser srv = Some u"
  shows "fst (saveChatToS3 srv uid chatId cd) = Inr ()
       \<and> fst (getChatFromS3 (snd (saveChatToS3 srv uid chatId cd)) uid chatId)
           = Some (chatDataJson cd)
       \<and> (\<forall>cd'. chatDataJson cd' = chatDataJson cd \<longrightarrow> cd' = cd)"
proof -
  let ?key = "u @ ''/chats/'' @ chatId @ ''/data.json''"
  let ?srv' = "srv\<lparr>bucket := (bucket srv)\<lparr>objects :=
             AList.update ?key (stringify (chatDataJson cd)) (objects (bucket srv))\<rparr>\<rparr>"
  have s: "saveChatToS3 srv uid chatId cd = (Inr (), ?srv')"
    using assms by (rule saveChatToS3_ok)
  have "map_of (objects (bucket ?srv')) ?key = Some (stringify (chatDataJson cd))"
    by (simp add: update_conv')
  then have "getChatFromS3 ?srv' uid chatId = (Some (chatDataJson cd), ?srv')"
    using assms by (intro getChatFromS3_found) simp_all
  with s show ?thesis
    by (auto dest: chatDataJson_inj)
qed

text \<open>
  The round trip at the example record.
\<close>

theorem save_then_load_witness:
  "online (bucket srv0) \<and> currentUser srv0 = Some ''user_1''
   \<and> fst (getChatFromS3 (snd (saveChatToS3 srv0 ''user_1'' ''1700000000000'' chat0)) ''user_1'' ''1700000000000'')
       = Some (chatDataJson chat0)"
  using save_then_load[of srv0 "''user_1''" "''user_1''" "''1700000000000''" chat0]
  by (simp add: srv0_def)

lemma getChatFromS3_failed:
  assumes "fst (chat_POST (bucket srv) (currentUser srv)
             (stringify (JObject [(''action'', JString ''get''), (''chatId'', JString chatId)])))
           = internal_server_error"
  shows "fst (getChatFromS3 srv uid chatId) = Some JNull"
proof -
  obtain st' where "chat_POST (bucket srv) (currentUser srv)
       (stringify (JObject [(''action'', JString ''get''), (''chatId'', JString chatId)]))
     = (internal_server_error, st')"
    using assms by (metis fst_conv surj_pair)
  then show ?thesis
    by (simp add: getChatFromS3_def fetch_api_chat_def ok_simps)
qed

text \<open>
  Claim C6, as the code has it. \<open>getChatFromS3\<close> returns \<^verbatim>\<open>null\<close> when no object is
  stored under the chat's key, and returns \<^verbatim>\<open>null\<close> as well when the stored bytes do
  not parse: the store's not-found error and the parse error both end in the handler's
  one \<^verbatim>\<open>catch\<close>, whose answer (500) the facade turns into \<^verbatim>\<open>null\<close>. Stored
  bytes that are empty never reach the parser; the handler answers 200 with
  \<^verbatim>\<open>{data: null}\<close>.
\<close>

theorem load_absent_or_malformed:
  assumes "online (bucket srv)" and "currentUser srv = Some u"
    and "map_of (objects (bucket srv)) (u @ ''/chats/'' @ chatId @ ''/data.json'') = None
         \<or> (\<exists>bytes. map_of (objects (bucket srv)) (u @ ''/chats/'' @ chatId @ ''/data.json'') = Some bytes
               \<and> JSON_parse bytes = None)"
  shows "fst (getChatFromS3 srv uid chatId) = Some JNull
       \<and> (map_of (objects (bucket srv)) (u @ ''/chats/'' @ chatId @ ''/data.json'') \<noteq> Some []
            \<longrightarrow> fst (chat_POST (bucket srv) (currentUser srv)
                       (stringify (JObject [(''action'', JString ''get''), (''chatId'', JString chatId)])))
                 = internal_server_error)
       \<and> (map_of (objects (bucket srv)) (u @ ''/chats/'' @ chatId @ ''/data.json'') = Some []
            \<longrightarrow> fst (chat_POST (bucket srv) (currentUser srv)
                       (stringify (JObject [(''action'', JString ''get''), (''chatId'', JString chatId)])))
                 = NextResponse_json (JObject [(''data'', JNull)]) 200)"
proof (cases "map_of (objects (bucket srv)) (u @ ''/chats/'' @ chatId @ ''/data.json'') = Some []")
  case True
  then have r: "chat_POST (bucket srv) (currentUser srv)
                  (stringify (JObject [(''action'', JString ''get''), (''chatId'', JString chatId)]))
                = (NextResponse_json (JObject [(''data'', JNull)]) 200, bucket srv)"
    using assms(1,2) by (simp add: chat_POST_get GetObject_def)
  then have "getChatFromS3 srv uid chatId = (Some JNull, srv)"
    by (simp add: getChatFromS3_def fetch_api_chat_def ok_simps body_json field_def)
  with True r show ?thesis by simp
next
  case False
  have "fst (chat_POST (bucket srv) (currentUser srv)
             (stringify (JObject [(''action'', JString ''get''), (''chatId'', JString chatId)])))
           = internal_server_error"
    using assms False by (auto simp: chat_POST_get GetObject_def)
  with False show ?thesis
    by (simp add: getChatFromS3_failed)
qed

lemma parse_brace: "JSON_parse ''{'' = None"
  by code_simp

text \<open>
  Claim C6 as stated fails: the bytes \<^verbatim>\<open>{\<close> do not parse, and loading them gives the
  same \<^verbatim>\<open>null\<close> that loading from an empty bucket gives.
\<close>

theorem load_malformed_counterexample:
  "JSON_parse ''{'' = None
   \<and> fst (getChatFromS3 srv_malformed ''user_1'' ''c1'') = Some JNull
   \<and> fst (getChatFromS3 srv0 ''user_1'' ''c1'') = Some JNull"
proof -
  have 1: "fst (getChatFromS3 srv_malformed ''user_1'' ''c1'') = Some JNull"
    by (intro getChatFromS3_failed)
       (simp add: srv_malformed_def chat_POST_get GetObject_def parse_brace)
  have 2: "fst (getChatFromS3 srv0 ''user_1'' ''c1'') = Some JNull"
    by (intro getChatFromS3_failed) (simp add: srv0_def chat_POST_get GetObject_def)
  from 1 2 parse_brace show ?thesis by simp
qed

text \<open>
  The cases of the theorem at concrete buckets: bytes that do not parse, no object, and
  an object without bytes.
\<close>

theorem load_absent_or_malformed_witness:
  "fst (getChatFromS3 srv_malformed ''user_1'' ''c1'') = Some JNull
   \<and> fst (getChatFromS3 srv0 ''user_1'' ''c1'') = Some JNull
   \<and> fst (chat_POST (bucket srv0) (currentUser srv0)
           (stringify (JObject [(''action'', JString ''get''), (''chatId'', JString ''c1'')])))
       = internal_server_error
   \<and> fst (chat_POST \<lparr>objects = [(''user_1/chats/c1/data.json'', [])], maxKeys = 1000, online = True\<rparr>
           (Some ''user_1'')
           (stringify (JObject [(''action'', JString ''get''), (''chatId'', JString ''c1'')])))
       = NextResponse_json (JObject [(''data'', JNull)]) 200"
proof -
  let ?srv = "\<lparr>bucket = \<lparr>objects = [(''user_1/chats/c1/data.json'', [])], maxKeys = 1000, online = True\<rparr>,
               currentUser = Some ''user_1''\<rparr>"
  have e: "JSON_parse [] = None"
    by (simp add: JSON_parse_def skip_ws_def)
  have 1: "fst (getChatFromS3 srv_malformed ''user_1'' ''c1'') = Some JNull"
    using load_absent_or_malformed[of srv_malformed "''user_1''" "''c1''" "''user_1''"]
    by (simp add: srv_malformed_def parse_brace)
  have 2: "fst (getChatFromS3 srv0 ''user_1'' ''c1'') = Some JNull
     \<and> fst (chat_POST (bucket srv0) (currentUser srv0)
           (stringify (JObject [(''action'', JString ''get''), (''chatId'', JString ''c1'')])))
       = internal_server_error"
    using load_absent_or_malformed[of srv0 "''user_1''" "''c1''" "''user_1''"]
    by (simp add: srv0_def)
  have 3: "fst (chat_POST (bucket ?srv) (currentUser ?srv)
           (stringify (JObject [(''action'', JString ''get''), (''chatId'', JString ''c1'')])))
       = NextResponse_json (JObject [(''data'', JNull)]) 200"
    using load_absent_or_malformed[of ?srv "''user_1''" "''c1''" "''user_1''"] e
    by simp
  from 1 2 3 show ?thesis by simp
qed

text \<open>
  Claim C8 as stated fails for a chat id that holds the delimiter: after saving the one
  chat \<^verbatim>\<open>a/b\<close>, the listing is \<^verbatim>\<open>["a"]\<close>.
\<close>

theorem list_slash_counterexample:
  "fst (listUserChats (save_all srv0 ''user_1'' [(''a/b'', chat0)]) ''user_1'') = Some (JArray [JString ''a''])"
  by (simp add: srv0_def saveChatToS3_ok[where u="''user_1''"] listUserChats_def fetch_api_chat_def
      chat_POST_list ListObjectsV2_def list_entry_of_def chat_id_of_prefix_def ok_simps body_json field_def)

lemma chat_id_of_prefix_key:
  assumes "CHR ''/'' \<notin> set u" and "CHR ''/'' \<notin> set c"
  shows "chat_id_of_prefix ((u @ ''/chats/'') @ c @ ''/'') = c"
proof -
  have "(u @ ''/chats/'') @ c @ ''/'' = u @ CHR ''/'' # (''chats'' @ CHR ''/'' # (c @ CHR ''/'' # []))"
    by simp
  then have "js_split (CHR ''/'') ((u @ ''/chats/'') @ c @ ''/'') = [u, ''chats'', c, []]"
    using assms by (simp only: js_split_app) (simp add: js_split_none)
  then show ?thesis
    by (simp add: chat_id_of_prefix_def)
qed

lemma list_entry_of_key:
  assumes "CHR ''/'' \<notin> set c"
  shows "list_entry_of pre (CHR ''/'') (pre @ c @ ''/data.json'') = CommonPrefix (pre @ c @ ''/'')"
proof -
  have "takeWhile (\<lambda>x. x \<noteq> CHR ''/'') (c @ ''/data.json'')
        = c @ takeWhile (\<lambda>x. x \<noteq> CHR ''/'') ''/data.json''"
    using assms by (intro takeWhile_append2) auto
  then show ?thesis
    by (simp add: list_entry_of_def)
qed

lemma common_prefixes_all:
  assumes "\<forall>e\<in>set es. \<exists>p. e = CommonPrefix p"
  shows "map CommonPrefix (common_prefixes es) = es"
  using assms by (induction es rule: common_prefixes.induct) auto

lemma listing:
  assumes "online st"
    and K: "set (filter (prefix pre) (map fst (objects st))) = (\<lambda>c. pre @ c @ ''/data.json'') ` C"
    and C: "\<forall>c\<in>C. CHR ''/'' \<notin> set c"
    and n: "card C \<le> maxKeys st"
  shows "\<exists>ps. ListObjectsV2 st pre (CHR ''/'') = Inr (if ps = [] then None else Some ps)
            \<and> distinct ps \<and> set ps = (\<lambda>c. pre @ c @ ''/'') ` C"
proof -
  let ?keys = "filter (prefix pre) (map fst (objects st))"
  let ?entries = "remdups (map (list_entry_of pre (CHR ''/'')) ?keys)"
  have inj: "inj_on (\<lambda>c. pre @ c @ ''/data.json'') C"
    by (rule inj_onI) simp
  have fin: "finite C"
    using K inj finite_imageD[of "\<lambda>c. pre @ c @ ''/data.json''" C]
    by (metis List.finite_set)
  have set_entries: "set ?entries = (\<lambda>c. CommonPrefix (pre @ c @ ''/'')) ` C"
  proof -
    have "set ?entries = list_entry_of pre (CHR ''/'') ` ((\<lambda>c. pre @ c @ ''/data.json'') ` C)"
      using K by simp
    also have "\<dots> = (\<lambda>c. CommonPrefix (pre @ c @ ''/'')) ` C"
      using C by (auto simp: list_entry_of_key image_iff intro!: bexI)
    finally show ?thesis .
  qed
  have inj2: "inj_on (\<lambda>c. CommonPrefix (pre @ c @ ''/'')) C"
    by (rule inj_onI) simp
  have "length ?entries = card (set ?entries)"
    by (metis distinct_card distinct_remdups)
  also have "\<dots> = card C"
    unfolding set_entries using inj2 by (rule card_image)
  finally have "take (maxKeys st) ?entries = ?entries"
    using n by simp
  moreover have all: "\<forall>e\<in>set ?entries. \<exists>p. e = CommonPrefix p"
    unfolding set_entries by auto
  define ps where "ps = common_prefixes ?entries"
  have m: "map CommonPrefix ps = ?entries"
    unfolding ps_def using all by (rule common_prefixes_all)
  have "distinct (map CommonPrefix ps)"
    unfolding m by simp
  then have d: "distinct ps"
    by (simp add: distinct_map)
  have "CommonPrefix ` set ps = CommonPrefix ` ((\<lambda>c. pre @ c @ ''/'') ` C)"
    using m set_entries by (metis image_image set_map)
  then have s: "set ps = (\<lambda>c. pre @ c @ ''/'') ` C"
    by (simp add: inj_image_eq_iff inj_def)
  have "ListObjectsV2 st pre (CHR ''/'') = Inr (if ps = [] then None else Some ps)"
    using assms(1) calculation by (simp add: ListObjectsV2_def ps_def Let_def)
  with d s show ?thesis by blast
qed

lemma save_all_state:
  assumes "online (bucket srv)" and "currentUser srv = Some u"
  shows "online (bucket (save_all srv uid saves))
       \<and> currentUser (save_all srv uid saves) = Some u
       \<and> maxKeys (bucket (save_all srv uid saves)) = maxKeys (bucket srv)
       \<and> fst ` set (objects (bucket (save_all srv uid saves)))
           = fst ` set (objects (bucket srv))
             \<union> (\<lambda>c. (u @ ''/chats/'') @ c @ ''/data.json'') ` fst ` set saves"
  using assms
proof (induction saves arbitrary: srv)
  case Nil
  then show ?case by simp
next
  case (Cons a saves)
  obtain c cd where a: "a = (c, cd)" by (cases a)
  let ?srv' = "srv\<lparr>bucket := (bucket srv)\<lparr>objects :=
             AList.update (u @ ''/chats/'' @ c @ ''/data.json'') (stringify (chatDataJson cd))
               (objects (bucket srv))\<rparr>\<rparr>"
  have s: "saveChatToS3 srv uid c cd = (Inr (), ?srv')"
    using Cons.prems by (rule saveChatToS3_ok)
  have "online (bucket ?srv')" "currentUser ?srv' = Some u"
    using Cons.prems by simp_all
  from Cons.IH[OF this] show ?case
    by (simp add: a s dom_update)
qed

lemma chat_ids_of_prefixes:
  assumes "CHR ''/'' \<notin> set u" and "\<forall>c\<in>C. c \<noteq> [] \<and> CHR ''/'' \<notin> set c"
    and "distinct ps" and "set ps = (\<lambda>c. (u @ ''/chats/'') @ c @ ''/'') ` C"
  shows "distinct (filter (\<lambda>s. s \<noteq> []) (map chat_id_of_prefix ps))
       \<and> set (filter (\<lambda>s. s \<noteq> []) (map chat_id_of_prefix ps)) = C"
proof -
  have id: "chat_id_of_prefix p \<in> C \<and> (u @ ''/chats/'') @ chat_id_of_prefix p @ ''/'' = p"
    if "p \<in> set ps" for p
    using that assms(1,2,4) by (auto simp: chat_id_of_prefix_key simp del: append_assoc)
  have "inj_on chat_id_of_prefix (set ps)"
    by (rule inj_onI) (metis id)
  then have d: "distinct (map chat_id_of_prefix ps)"
    using assms(3) by (simp add: distinct_map)
  have "chat_id_of_prefix ` set ps = C"
  proof
    show "chat_id_of_prefix ` set ps \<subseteq> C"
      using id by auto
    show "C \<subseteq> chat_id_of_prefix ` set ps"
    proof
      fix c assume c: "c \<in> C"
      then have "(u @ ''/chats/'') @ c @ ''/'' \<in> set ps"
        using assms(4) by blast
      moreover have "chat_id_of_prefix ((u @ ''/chats/'') @ c @ ''/'') = c"
        using c assms(1,2) by (intro chat_id_of_prefix_key) auto
      ultimately show "c \<in> chat_id_of_prefix ` set ps"
        by (metis image_eqI)
    qed
  qed
  moreover have "filter (\<lambda>s. s \<noteq> []) (map chat_id_of_prefix ps) = map chat_id_of_prefix ps"
    using id assms(2) by (auto simp: filter_id_conv)
  ultimately show ?thesis
    using d by simp
qed

text \<open>
  Claim C8, as the code has it. Let the user id and the chat ids hold no \<^verbatim>\<open>/\<close>, the
  chat ids be non-empty, the bucket hold nothing under the user's prefix beforehand,
  and the number of distinct chat ids be within one page of the store's listing. Then
  after the saves the handler answers 200 with exactly the saved chat ids, each once,
  and \<open>listUserChats\<close> returns them. With no save at all the answer is the empty list.
\<close>

theorem list_after_saves:
  assumes "online (bucket srv)" and "currentUser srv = Some u"
    and "CHR ''/'' \<notin> set u"
    and "\<forall>k\<in>fst ` set (objects (bucket srv)). \<not> prefix (u @ ''/chats/'') k"
    and "\<forall>c\<in>fst ` set saves. c \<noteq> [] \<and> CHR ''/'' \<notin> set c"
    and "card (fst ` set saves) \<le> maxKeys (bucket srv)"
  shows "\<exists>ids. fst (fetch_api_chat (save_all srv uid saves) (JObject [(''action'', JString ''list'')]))
                = NextResponse_json (JObject [(''chatIds'', JArray (map JString ids))]) 200
            \<and> fst (listUserChats (save_all srv uid saves) uid') = Some (JArray (map JString ids))
            \<and> distinct ids \<and> set ids = fst ` set saves"
proof -
  let ?srv = "save_all srv uid saves"
  let ?pre = "u @ ''/chats/''"
  let ?C = "fst ` set saves"
  note st = save_all_state[OF assms(1,2), of uid saves]
  have K: "set (filter (prefix ?pre) (map fst (objects (bucket ?srv))))
           = (\<lambda>c. ?pre @ c @ ''/data.json'') ` ?C"
    using st assms(4) by auto
  have "\<exists>ps. ListObjectsV2 (bucket ?srv) ?pre (CHR ''/'') = Inr (if ps = [] then None else Some ps)
            \<and> distinct ps \<and> set ps = (\<lambda>c. ?pre @ c @ ''/'') ` ?C"
    using st assms(5,6) K by (intro listing) auto
  then obtain ps where ps: "ListObjectsV2 (bucket ?srv) ?pre (CHR ''/'') = Inr (if ps = [] then None else Some ps)"
    "distinct ps" "set ps = (\<lambda>c. ?pre @ c @ ''/'') ` ?C"
    by blast
  define ids where "ids = filter (\<lambda>s. s \<noteq> []) (map chat_id_of_prefix ps)"
  have ids: "distinct ids \<and> set ids = ?C"
    unfolding ids_def using assms(3,5) ps(2,3) by (intro chat_ids_of_prefixes) auto
  have c: "(case (if ps = [] then None else Some ps) of None \<Rightarrow> []
         | Some ps \<Rightarrow> filter (\<lambda>s. s \<noteq> []) (map chat_id_of_prefix ps)) = ids"
    by (simp add: ids_def)
  have 1: "fst (fetch_api_chat ?srv (JObject [(''action'', JString ''list'')]))
           = NextResponse_json (JObject [(''chatIds'', JArray (map JString ids))]) 200"
    using st ps(1) c by (simp add: fetch_api_chat_def chat_POST_list)
  have 2: "fst (listUserChats ?srv uid') = Some (JArray (map JString ids))"
    using st ps(1) c
    by (simp add: listUserChats_def fetch_api_chat_def chat_POST_list ok_simps body_json field_def)
  from 1 2 ids show ?thesis by blast
qed

text \<open>Two chats saved, one of them twice; and no chat saved.\<close>

theorem list_after_saves_witness:
  "(\<exists>ids. fst (listUserChats (save_all srv0 ''user_1'' [(''17'', chat0), (''18'', chat0), (''17'', chat0)])
              ''user_1'') = Some (JArray (map JString ids))
          \<and> distinct ids \<and> set ids = {''17'', ''18''})
   \<and> fst (listUserChats (save_all srv0 ''user_1'' []) ''user_1'') = Some (JArray [])"
proof -
  let ?saves = "[(''17'', chat0), (''18'', chat0), (''17'', chat0)]"
  have e: "fst ` set ?saves = {''17'', ''18''}"
    by auto
  have h1: "online (bucket srv0)" and h2: "currentUser srv0 = Some ''user_1''"
    and h3: "CHR ''/'' \<notin> set ''user_1''"
    and h4: "\<forall>k\<in>fst ` set (objects (bucket srv0)). \<not> prefix (''user_1'' @ ''/chats/'') k"
    by (simp_all add: srv0_def)
  have h5: "\<forall>c\<in>fst ` set ?saves. c \<noteq> [] \<and> CHR ''/'' \<notin> set c"
    unfolding e by simp
  have h6: "card (fst ` set ?saves) \<le> maxKeys (bucket srv0)"
    unfolding e by (simp add: srv0_def)
  have 1: "\<exists>ids. fst (listUserChats (save_all srv0 ''user_1'' ?saves) ''user_1'')
                = Some (JArray (map JString ids)) \<and> distinct ids \<and> set ids = {''17'', ''18''}"
    using list_after_saves[OF h1 h2 h3 h4 h5 h6, of "''user_1''" "''user_1''"] unfolding e
    by blast
  have h5': "\<forall>c\<in>fst ` set ([] :: (string \<times> ChatData) list). c \<noteq> [] \<and> CHR ''/'' \<notin> set c"
    and h6': "card (fst ` set ([] :: (string \<times> ChatData) list)) \<le> maxKeys (bucket srv0)"
    by simp_all
  have 2: "fst (listUserChats (save_all srv0 ''user_1'' []) ''user_1'') = Some (JArray [])"
    using list_after_saves[OF h1 h2 h3 h4 h5' h6', of "''user_1''" "''user_1''"]
    by auto
  from 1 2 show ?thesis by blast
qed

lemma chat_POST_reads:
  assumes "JSON_parse b = Some p" and "JSON_parse b' = Some p'" and "p = JNull \<longleftrightarrow> p' = JNull"
    and "field ''action'' p = field ''action'' p'" and "field ''chatId'' p = field ''chatId'' p'"
    and "field ''chatData'' p = field ''chatData'' p'"
  shows "chat_POST st user b = chat_POST st user b'"
  using assms by (cases user; cases "p = JNull") (simp_all add: chat_POST_def)

lemma chat_POST_writes:
  assumes "map_of (objects (snd (chat_POST st (Some u) b))) k \<noteq> map_of (objects st) k"
  shows "\<exists>p. JSON_parse b = Some p \<and> field ''action'' p = Some (JString ''save'')
             \<and> k = u @ ''/chats/'' @ template (field ''chatId'' p) @ ''/data.json''"
proof (cases "JSON_parse b")
  case None
  with assms show ?thesis by (simp add: chat_POST_def)
next
  case (Some p)
  show ?thesis
  proof (cases "p \<noteq> JNull \<and> field ''action'' p = Some (JString ''save'')")
    case True
    let ?key = "u @ ''/chats/'' @ template (field ''chatId'' p) @ ''/data.json''"
    have "k = ?key"
    proof (rule ccontr)
      assume "k \<noteq> ?key"
      then have "map_of (objects (snd (chat_POST st (Some u) b))) k = map_of (objects st) k"
        using Some True
        by (simp add: chat_POST_def PutObject_def Let_def update_conv')
      with assms show False by simp
    qed
    with Some True show ?thesis by simp
  next
    case False
    then have "snd (chat_POST st (Some u) b) = st"
      using Some
      by (auto simp: chat_POST_def Let_def split: sum.splits option.splits)
    with assms show ?thesis by simp
  qed
qed

lemma map_of_filter_key:
  "P k \<Longrightarrow> map_of (filter (\<lambda>(k', v). P k') al) k = map_of al k"
  by (induction al) auto

lemma GetObject_under_prefix:
  assumes "online st' = online st"
    and "filter (\<lambda>(k, v). prefix pre k) (objects st') = filter (\<lambda>(k, v). prefix pre k) (objects st)"
  shows "GetObject st' (pre @ x) = GetObject st (pre @ x)"
proof -
  have "map_of (objects st') (pre @ x) = map_of (objects st) (pre @ x)"
    using map_of_filter_key[of "prefix pre" "pre @ x" "objects st'"]
      map_of_filter_key[of "prefix pre" "pre @ x" "objects st"] assms(2)
    by simp
  then show ?thesis
    using assms(1) by (simp add: GetObject_def)
qed

lemma ListObjectsV2_under_prefix:
  assumes "online st' = online st" and "maxKeys st' = maxKeys st"
    and "filter (\<lambda>(k, v). prefix pre k) (objects st') = filter (\<lambda>(k, v). prefix pre k) (objects st)"
  shows "ListObjectsV2 st' pre d = ListObjectsV2 st pre d"
proof -
  have "filter (prefix pre) (map fst al) = map fst (filter (\<lambda>(k, v). prefix pre k) al)" for al :: "(string \<times> string) list"
    by (induction al) auto
  then have "filter (prefix pre) (map fst (objects st')) = filter (prefix pre) (map fst (objects st))"
    using assms(3) by simp
  then show ?thesis
    using assms(1,2) by (simp add: ListObjectsV2_def)
qed

lemma chat_POST_depends:
  assumes "online st' = online st" and "maxKeys st' = maxKeys st"
    and "filter (\<lambda>(k, v). prefix (u @ ''/chats/'') k) (objects st')
         = filter (\<lambda>(k, v). prefix (u @ ''/chats/'') k) (objects st)"
  shows "fst (chat_POST st' (Some u) b) = fst (chat_POST st (Some u) b)"
proof -
  have g: "GetObject st' (u @ ''/chats/'' @ x) = GetObject st (u @ ''/chats/'' @ x)" for x
    using GetObject_under_prefix[OF assms(1,3), of x] by simp
  have l: "ListObjectsV2 st' (u @ ''/chats/'') d = ListObjectsV2 st (u @ ''/chats/'') d" for d
    using assms by (rule ListObjectsV2_under_prefix)
  show ?thesis
    unfolding chat_POST_def option.case Let_def g l using assms(1)
    by (auto simp: PutObject_def split: option.splits sum.splits)
qed

text \<open>
  Claim C2, as the code has it. No request carries a user id: the three facade functions
  never read their \<open>userId\<close> argument, and the handler reads only the members
  \<^verbatim>\<open>action\<close>, \<^verbatim>\<open>chatId\<close> and \<^verbatim>\<open>chatData\<close> of the request, so that two requests
  that agree on these get the same answer and have the same effect, whatever else they
  hold. The tenant is the user of the session, for every request: a key that the handler
  writes is \<^verbatim>\<open>u/chats/c/data.json\<close> for the id \<open>u\<close> of the session's user (with \<open>c\<close>
  the request's chat id when that is a string); without a session nothing is written;
  and the answer depends on the store only through the objects under the prefix
  \<^verbatim>\<open>u/chats/\<close>, which covers the object a get reads and the keys a list reports.
\<close>

theorem storage_key_from_session:
  "saveChatToS3 srv uid chatId cd = saveChatToS3 srv uid' chatId cd
   \<and> getChatFromS3 srv uid chatId = getChatFromS3 srv uid' chatId
   \<and> listUserChats srv uid = listUserChats srv uid'
   \<and> (JSON_parse b = Some p \<and> JSON_parse b' = Some p' \<and> (p = JNull \<longleftrightarrow> p' = JNull)
        \<and> field ''action'' p = field ''action'' p' \<and> field ''chatId'' p = field ''chatId'' p'
        \<and> field ''chatData'' p = field ''chatData'' p'
      \<longrightarrow> chat_POST st user b = chat_POST st user b')
   \<and> (map_of (objects (snd (chat_POST st (Some u) b))) k \<noteq> map_of (objects st) k
      \<longrightarrow> (\<exists>c. k = u @ ''/chats/'' @ c @ ''/data.json'')
          \<and> (\<forall>q c. JSON_parse b = Some q \<and> field ''chatId'' q = Some (JString c)
                 \<longrightarrow> k = u @ ''/chats/'' @ c @ ''/data.json''))
   \<and> snd (chat_POST st None b) = st
   \<and> (online st' = online st \<and> maxKeys st' = maxKeys st
        \<and> filter (\<lambda>(k, v). prefix (u @ ''/chats/'') k) (objects st')
            = filter (\<lambda>(k, v). prefix (u @ ''/chats/'') k) (objects st)
      \<longrightarrow> fst (chat_POST st' (Some u) b) = fst (chat_POST st (Some u) b))
   \<and> fst ` set (objects (bucket (snd (saveChatToS3
          \<lparr>bucket = \<lparr>objects = os, maxKeys = n, online = True\<rparr>, currentUser = Some u\<rparr>
          uid chatId cd))))
       = insert (u @ ''/chats/'' @ chatId @ ''/data.json'') (fst ` set os)"
proof -
  have 1: "saveChatToS3 srv uid chatId cd = saveChatToS3 srv uid' chatId cd"
    by (simp add: saveChatToS3_def)
  have 2: "getChatFromS3 srv uid chatId = getChatFromS3 srv uid' chatId"
    by (simp add: getChatFromS3_def)
  have 3: "listUserChats srv uid = listUserChats srv uid'"
    by (simp add: listUserChats_def)
  have 4: "chat_POST st user b = chat_POST st user b'"
    if "JSON_parse b = Some p \<and> JSON_parse b' = Some p' \<and> (p = JNull \<longleftrightarrow> p' = JNull)
        \<and> field ''action'' p = field ''action'' p' \<and> field ''chatId'' p = field ''chatId'' p'
        \<and> field ''chatData'' p = field ''chatData'' p'"
    using that by (intro chat_POST_reads[of b p b' p']) simp_all
  have 5: "(\<exists>c. k = u @ ''/chats/'' @ c @ ''/data.json'')
          \<and> (\<forall>q c. JSON_parse b = Some q \<and> field ''chatId'' q = Some (JString c)
                 \<longrightarrow> k = u @ ''/chats/'' @ c @ ''/data.json'')"
    if chg: "map_of (objects (snd (chat_POST st (Some u) b))) k \<noteq> map_of (objects st) k"
  proof -
    obtain q where q: "JSON_parse b = Some q"
      "k = u @ ''/chats/'' @ template (field ''chatId'' q) @ ''/data.json''"
      using chat_POST_writes[OF chg] by blast
    have "k = u @ ''/chats/'' @ c @ ''/data.json''"
      if "JSON_parse b = Some q'" and "field ''chatId'' q' = Some (JString c)" for q' c
      using that q by (simp add: template_def)
    with q(2) show ?thesis by blast
  qed
  have 6: "snd (chat_POST st None b) = st"
    by (simp add: chat_POST_def)
  have 7: "fst (chat_POST st' (Some u) b) = fst (chat_POST st (Some u) b)"
    if "online st' = online st \<and> maxKeys st' = maxKeys st
        \<and> filter (\<lambda>(k, v). prefix (u @ ''/chats/'') k) (objects st')
            = filter (\<lambda>(k, v). prefix (u @ ''/chats/'') k) (objects st)"
    using that by (intro chat_POST_depends) simp_all
  have 8: "fst ` set (objects (bucket (snd (saveChatToS3
          \<lparr>bucket = \<lparr>objects = os, maxKeys = n, online = True\<rparr>, currentUser = Some u\<rparr>
          uid chatId cd))))
       = insert (u @ ''/chats/'' @ chatId @ ''/data.json'') (fst ` set os)"
    by (simp add: saveChatToS3_ok[where u=u] dom_update)
  from 1 2 3 4 5 6 7 8 show ?thesis
    by blast
qed

text \<open>
  A save request that carries a \<^verbatim>\<open>userId\<close> member all the same: the handler answers
  and stores as it does without the member, and the key it writes is that of the
  session's user.
\<close>

theorem storage_key_from_session_witness:
  "chat_POST (bucket srv0) (Some ''user_1'')
     (stringify (JObject [(''userId'', JString ''mallory''), (''action'', JString ''save''),
                          (''chatId'', JString ''c1''), (''chatData'', chatDataJson chat0)]))
   = chat_POST (bucket srv0) (Some ''user_1'')
       (stringify (JObject
          [(''action'', JString ''save''), (''chatId'', JString ''c1''), (''chatData'', chatDataJson chat0)]))
   \<and> map fst (objects (snd (chat_POST (bucket srv0) (Some ''user_1'')
            (stringify (JObject [(''action'', JString ''save''), (''chatId'', JString ''c1''),
                                 (''chatData'', chatDataJson chat0)])))))
       = [''user_1/chats/c1/data.json'']
   \<and> (\<exists>c. ''user_1/chats/c1/data.json'' = ''user_1'' @ ''/chats/'' @ c @ ''/data.json'')"
proof -
  let ?P = "JObject [(''userId'', JString ''mallory''), (''action'', JString ''save''),
                     (''chatId'', JString ''c1''), (''chatData'', chatDataJson chat0)]"
  let ?P' = "JObject [(''action'', JString ''save''), (''chatId'', JString ''c1''),
                      (''chatData'', chatDataJson chat0)]"
  let ?k = "''user_1/chats/c1/data.json''"
  have p: "JSON_parse (stringify ?P) = Some ?P" "JSON_parse (stringify ?P') = Some ?P'"
    by (simp_all add: JSON_roundtrip)
  have f: "field ''action'' ?P = field ''action'' ?P'" "field ''chatId'' ?P = field ''chatId'' ?P'"
    "field ''chatData'' ?P = field ''chatData'' ?P'"
    by (simp_all add: field_def)
  have 1: "chat_POST (bucket srv0) (Some ''user_1'') (stringify ?P)
           = chat_POST (bucket srv0) (Some ''user_1'') (stringify ?P')"
    using storage_key_from_session[where b="stringify ?P" and p="?P" and b'="stringify ?P'" and p'="?P'"
        and st="bucket srv0" and user="Some ''user_1''"] p f
    by simp
  have 2: "map fst (objects (snd (chat_POST (bucket srv0) (Some ''user_1'') (stringify ?P')))) = [?k]"
    by (simp add: chat_POST_save PutObject_def srv0_def)
  then have c: "map_of (objects (snd (chat_POST (bucket srv0) (Some ''user_1'') (stringify ?P')))) ?k
        \<noteq> map_of (objects (bucket srv0)) ?k"
    by (simp add: chat_POST_save PutObject_def srv0_def)
  have 3: "\<exists>c. ?k = ''user_1'' @ ''/chats/'' @ c @ ''/data.json''"
    using storage_key_from_session[where b="stringify ?P'" and st="bucket srv0" and u="''user_1''"
        and k="?k"] c
    by blast
  from 1 2 3 show ?thesis by blast
qed

text \<open>
  Claim C2 as stated fails: signed in as \<^verbatim>\<open>user_1\<close> and passing \<^verbatim>\<open>mallory\<close> as the
  \<open>userId\<close>, the save writes the key of \<^verbatim>\<open>user_1\<close>, as it does when passing
  \<^verbatim>\<open>user_1\<close>.
\<close>

theorem client_userId_counterexample:
  "map fst (objects (bucket (snd (saveChatToS3 srv0 ''mallory'' ''c1'' chat0))))
     = [''user_1/chats/c1/data.json'']
   \<and> saveChatToS3 srv0 ''mallory'' ''c1'' chat0 = saveChatToS3 srv0 ''user_1'' ''c1'' chat0"
  by (simp add: srv0_def saveChatToS3_ok[where u="''user_1''"])

section \<open>Properties of the composed instruction\<close>

lemma sys_lines: "constraint_lines SYSTEM_PROMPT = []"
  by code_simp

lemma cl_app: "constraint_lines (a @ nl # b) = constraint_lines a @ constraint_lines b"
  by (simp add: constraint_lines_def js_split_app)

lemma cl_nil: "constraint_lines [] = []"
  by (simp add: constraint_lines_def constraint_line_def)

lemma filter_tl_nil: "filter P xs = [] \<Longrightarrow> filter P (tl xs) = []"
  by (cases xs) (auto split: if_splits)

lemma cl_labelled:
  assumes "nl \<notin> set a" and "\<And>x. \<not> constraint_line (a @ x)" and "constraint_lines b = []"
  shows "constraint_lines (a @ b) = []"
  using assms by (simp add: constraint_lines_def js_split_pre filter_tl_nil)

lemma cl_rendered:
  assumes "nl \<notin> set a" and "nl \<notin> set b" and "constraint_line (a @ b)"
  shows "constraint_lines (a @ b) = [a @ b]"
  using assms js_split_pre[of nl "a @ b" "[]"] by (simp add: constraint_lines_def)

lemma foldl_history: "foldl history_line acc h = acc @ concat (map (history_line []) h)"
  by (induction h arbitrary: acc) (simp_all add: history_line_def)

lemma cl_history:
  assumes "\<forall>m\<in>set h. constraint_lines (hm_content m) = []"
  shows "constraint_lines (concat (map (history_line []) h) @ rest) = constraint_lines rest"
  using assms
proof (induction h)
  case Nil
  then show ?case by simp
next
  case (Cons m h)
  define lab where "lab = (if hm_role m = ''user'' then ''User'' else ''Assistant'') @ '': ''"
  define X where "X = concat (map (history_line []) h) @ rest"
  have eq: "concat (map (history_line []) (m # h)) @ rest = (lab @ hm_content m) @ nl # X"
    by (simp add: history_line_def lab_def X_def)
  have "constraint_lines (lab @ hm_content m) = []"
    using Cons.prems by (intro cl_labelled) (auto simp: nl_def constraint_line_def lab_def)
  moreover have "constraint_lines X = constraint_lines rest"
    using Cons by (simp add: X_def)
  ultimately show ?case
    unfolding eq cl_app by simp
qed


lemma history_step:
  "(case hist of None \<Rightarrow> p | Some h \<Rightarrow>
      if length h > 0 then foldl history_line (p @ [nl] @ ''Previous conversation context:'' @ [nl]) h else p)
     = p @ history_block hist"
  by (simp add: history_block_def foldl_history split: option.splits)

lemma enhancedPrompt_sections:
  "enhancedPrompt prompt tn gl au hist =
     header @ seg ''Tone'' tn @ seg ''Goal'' gl @ seg ''Target Audience'' au
       @ history_block hist @ request_block prompt"
proof -
  have t: "\<And>p. (case tn of None \<Rightarrow> p | Some t \<Rightarrow> if t \<noteq> [] then p @ ''Tone: '' @ t @ [nl] else p)
      = p @ seg ''Tone'' tn"
    by (simp add: seg_def split: option.splits)
  have g: "\<And>p. (case gl of None \<Rightarrow> p | Some t \<Rightarrow> if t \<noteq> [] then p @ ''Goal: '' @ t @ [nl] else p)
      = p @ seg ''Goal'' gl"
    by (simp add: seg_def split: option.splits)
  have a: "\<And>p. (case au of None \<Rightarrow> p | Some t \<Rightarrow> if t \<noteq> [] then p @ ''Target Audience: '' @ t @ [nl] else p)
      = p @ seg ''Target Audience'' au"
    by (simp add: seg_def split: option.splits)
  show ?thesis
    unfolding enhancedPrompt_def Let_def t g a history_step
    by (simp add: header_def request_block_def)
qed

lemma cl_header: "constraint_lines (header @ R) = constraint_lines R"
proof -
  have eq: "header @ R = SYSTEM_PROMPT @ nl # ([] @ nl # (''Create a tweet with the following specifications:'' @ nl # R))"
    by (simp add: header_def)
  have c: "constraint_lines ''Create a tweet with the following specifications:'' = []"
    by code_simp
  show ?thesis
    unfolding eq cl_app sys_lines cl_nil c by simp
qed

lemma cl_seg:
  assumes "\<forall>s. v = Some s \<longrightarrow> nl \<notin> set s" and "nl \<notin> set label"
    and "\<And>x. constraint_line (label @ '': '' @ x)"
  shows "constraint_lines (seg label v @ R) = rendered label v @ constraint_lines R"
proof (cases v)
  case None
  then show ?thesis by (simp add: seg_def rendered_def)
next
  case (Some s)
  show ?thesis
  proof (cases "s = []")
    case True
    with Some show ?thesis by (simp add: seg_def rendered_def)
  next
    case False
    have eq: "seg label v @ R = ((label @ '': '') @ s) @ nl # R"
      using Some False by (simp add: seg_def)
    have "constraint_lines ((label @ '': '') @ s) = [(label @ '': '') @ s]"
      using assms Some by (intro cl_rendered) (auto simp: nl_def)
    then show ?thesis
      unfolding eq cl_app using Some False by (simp add: rendered_def)
  qed
qed

lemma cl_history_block:
  assumes "\<forall>h. hist = Some h \<longrightarrow> (\<forall>m\<in>set h. constraint_lines (hm_content m) = [])"
  shows "constraint_lines (history_block hist @ R) = constraint_lines R"
proof (cases hist)
  case None
  then show ?thesis by (simp add: history_block_def)
next
  case (Some h)
  show ?thesis
  proof (cases "h = []")
    case True
    with Some show ?thesis by (simp add: history_block_def)
  next
    case False
    have eq: "history_block hist @ R =
          [] @ nl # (''Previous conversation context:'' @ nl # (concat (map (history_line []) h) @ R))"
      using Some False by (simp add: history_block_def)
    have c: "constraint_lines ''Previous conversation context:'' = []"
      by code_simp
    have "constraint_lines (concat (map (history_line []) h) @ R) = constraint_lines R"
      using assms Some by (intro cl_history) simp
    then show ?thesis
      unfolding eq cl_app cl_nil c by simp
  qed
qed

lemma cl_request:
  assumes "constraint_lines prompt = []"
  shows "constraint_lines (request_block prompt) = []"
proof -
  have eq: "request_block prompt = [] @ nl # ((''User's request: '' @ prompt) @ nl # ([] @ nl #
           ''Generate a tweet that matches these specifications.''))"
    by (simp add: request_block_def)
  have c: "constraint_lines ''Generate a tweet that matches these specifications.'' = []"
    by code_simp
  have "constraint_lines (''User's request: '' @ prompt) = []"
    using assms by (intro cl_labelled) (auto simp: nl_def constraint_line_def)
  then show ?thesis
    unfolding eq cl_app cl_nil c by simp
qed

lemma constraint_lines_enhancedPrompt:
  assumes "\<forall>s. tn = Some s \<longrightarrow> nl \<notin> set s"
    and "\<forall>s. gl = Some s \<longrightarrow> nl \<notin> set s"
    and "\<forall>s. au = Some s \<longrightarrow> nl \<notin> set s"
    and "constraint_lines prompt = []"
    and "\<forall>h. hist = Some h \<longrightarrow> (\<forall>m\<in>set h. constraint_lines (hm_content m) = [])"
  shows "constraint_lines (enhancedPrompt prompt tn gl au hist) =
           rendered ''Tone'' tn @ rendered ''Goal'' gl @ rendered ''Target Audience'' au
         \<and> (\<not> truthy tn \<and> \<not> truthy gl \<and> \<not> truthy au \<longrightarrow>
              constraint_lines (enhancedPrompt prompt tn gl au hist) = [])"
proof -
  have t: "constraint_lines (seg ''Tone'' tn @ R) = rendered ''Tone'' tn @ constraint_lines R" for R
    using assms(1) by (intro cl_seg) (auto simp: nl_def constraint_line_def)
  have g: "constraint_lines (seg ''Goal'' gl @ R) = rendered ''Goal'' gl @ constraint_lines R" for R
    using assms(2) by (intro cl_seg) (auto simp: nl_def constraint_line_def)
  have a: "constraint_lines (seg ''Target Audience'' au @ R)
           = rendered ''Target Audience'' au @ constraint_lines R" for R
    using assms(3) by (intro cl_seg) (auto simp: nl_def constraint_line_def)
  have 1: "constraint_lines (enhancedPrompt prompt tn gl au hist) =
           rendered ''Tone'' tn @ rendered ''Goal'' gl @ rendered ''Target Audience'' au"
    unfolding enhancedPrompt_sections cl_header t g a cl_history_block[OF assms(5)] cl_request[OF assms(4)]
    by simp
  have "\<not> truthy tn \<and> \<not> truthy gl \<and> \<not> truthy au \<longrightarrow>
       rendered ''Tone'' tn @ rendered ''Goal'' gl @ rendered ''Target Audience'' au = []"
    by (auto simp: truthy_def rendered_def split: option.splits)
  with 1 show ?thesis by simp
qed

lemma seg_rendered: "seg label v = concat (map (\<lambda>l. l @ [nl]) (rendered label v))"
  by (simp add: seg_def rendered_def split: option.splits)

lemma header_lines: "constraint_lines header = []"
  using cl_header[of "[]"] by (simp add: cl_nil)

text \<open>
  Claim C9. For every request, the composed instruction is the fixed header, then one
  line for each option that is present (truthy), in the order tone, goal, audience, then
  the history and request sections, which do not depend on the options: an absent
  option (missing, \<^verbatim>\<open>null\<close> or empty) contributes nothing, not a line with an empty
  value, and with all three absent the header is followed directly by the other
  sections. The header holds no constraint line. Read as text: when the option values
  hold no newline and no line of the user's own text (request, history) reads as a
  constraint, the constraint lines of the instruction are exactly the rendered ones.
\<close>

theorem enhancedPrompt_constraint_lines:
  "enhancedPrompt p tn gl au h
     = header
       @ concat (map (\<lambda>l. l @ [nl])
           (rendered ''Tone'' tn @ rendered ''Goal'' gl @ rendered ''Target Audience'' au))
       @ history_block h @ request_block p
   \<and> (\<not> truthy tn \<and> \<not> truthy gl \<and> \<not> truthy au \<longrightarrow>
        enhancedPrompt p tn gl au h = header @ history_block h @ request_block p)
   \<and> constraint_lines header = []
   \<and> ((\<forall>s. tn = Some s \<longrightarrow> nl \<notin> set s) \<and> (\<forall>s. gl = Some s \<longrightarrow> nl \<notin> set s)
        \<and> (\<forall>s. au = Some s \<longrightarrow> nl \<notin> set s) \<and> constraint_lines p = []
        \<and> (\<forall>hs. h = Some hs \<longrightarrow> (\<forall>m\<in>set hs. constraint_lines (hm_content m) = []))
       \<longrightarrow> constraint_lines (enhancedPrompt p tn gl au h)
            = rendered ''Tone'' tn @ rendered ''Goal'' gl @ rendered ''Target Audience'' au)"
proof -
  have 1: "enhancedPrompt p tn gl au h
     = header
       @ concat (map (\<lambda>l. l @ [nl])
           (rendered ''Tone'' tn @ rendered ''Goal'' gl @ rendered ''Target Audience'' au))
       @ history_block h @ request_block p"
    unfolding enhancedPrompt_sections seg_rendered by simp
  have 2: "\<not> truthy tn \<and> \<not> truthy gl \<and> \<not> truthy au \<longrightarrow>
        enhancedPrompt p tn gl au h = header @ history_block h @ request_block p"
    unfolding 1 by (auto simp: truthy_def rendered_def split: option.splits)
  from 1 2 header_lines constraint_lines_enhancedPrompt[of tn gl au p h]
  show ?thesis by blast
qed

theorem enhancedPrompt_constraint_lines_witness:
  "constraint_lines (enhancedPrompt ''write a tweet about Mars'' None (Some ''Promotion'') (Some [])
      (Some [\<lparr>hm_role = ''user'', hm_content = ''hello''\<rparr>])) = [''Goal: Promotion'']
   \<and> constraint_lines (enhancedPrompt ''write a tweet about Mars'' None None None None) = []"
proof -
  have p: "constraint_lines ''write a tweet about Mars'' = []" by code_simp
  have h: "constraint_lines ''hello'' = []" by code_simp
  have 1: "constraint_lines (enhancedPrompt ''write a tweet about Mars'' None (Some ''Promotion'') (Some [])
      (Some [\<lparr>hm_role = ''user'', hm_content = ''hello''\<rparr>])) = [''Goal: Promotion'']"
    using enhancedPrompt_constraint_lines[of "''write a tweet about Mars''" None "Some ''Promotion''" "Some []"
        "Some [\<lparr>hm_role = ''user'', hm_content = ''hello''\<rparr>]",
        THEN conjunct2, THEN conjunct2, THEN conjunct2] p h
    by (simp add: rendered_def nl_def)
  have 2: "constraint_lines (enhancedPrompt ''write a tweet about Mars'' None None None None) = []"
    using enhancedPrompt_constraint_lines[of "''write a tweet about Mars''" None None None None,
        THEN conjunct2, THEN conjunct2, THEN conjunct2] p
    by (simp add: rendered_def)
  from 1 2 show ?thesis by simp
qed

section \<open>Properties of the relay\<close>

lemma relay_texts: "relay (map Text ts @ cs) e = map enqueue ts @ relay cs e"
  by (induction ts) simp_all

lemma relay_success: "relay (map Text ts) EndOfGeneration = map enqueue ts @ [close]"
  using relay_texts[of ts "[]" EndOfGeneration] by simp

lemma close_in_relay: "close \<in> set (relay cs e) \<longleftrightarrow> e = EndOfGeneration \<and> TextThrows \<notin> set cs"
  by (induction cs e rule: relay.induct) auto

lemma enqueued_texts: "enqueued (map enqueue ts @ cs) = ts @ enqueued cs"
  by (induction ts) simp_all

lemma read_loop_texts:
  "fst (snd (read_loop (map enqueue ts @ [close]) acc s)) = acc @ concat ts
   \<and> fst (read_loop (map enqueue ts @ [close]) acc s) = StreamDone"
  by (induction ts arbitrary: acc s) simp_all

text \<open>
  Claim C4. When the provider yields the texts \<open>ts\<close> and then signals the end of the
  generation, the relay enqueues exactly \<open>ts\<close>, in order and unchanged, and then closes
  the stream; the concatenation of what it enqueued is the concatenation of \<open>ts\<close>, and
  that is what the reader accumulates. The calls made for the first \<open>n\<close> texts do not
  depend on what the provider does later (nothing is held back). A stream is closed
  exactly when the provider ends the generation and no chunk fails.
\<close>

theorem relay_in_order:
  assumes "generateContentStream p = Generating (map Text ts) EndOfGeneration"
  shows "start generateContentStream p = map enqueue ts @ [close]
       \<and> enqueued (start generateContentStream p) = ts
       \<and> concat (enqueued (start generateContentStream p)) = concat ts
       \<and> (\<forall>n\<le>length ts. \<forall>cs e. relay (map Text (take n ts) @ cs) e = map enqueue (take n ts) @ relay cs e)
       \<and> (\<forall>cs e. close \<in> set (relay cs e) \<longleftrightarrow> e = EndOfGeneration \<and> TextThrows \<notin> set cs)
       \<and> read_loop (start generateContentStream p) [] s
           = (StreamDone, concat ts, snd (snd (read_loop (start generateContentStream p) [] s)))"
proof -
  have 1: "start generateContentStream p = map enqueue ts @ [close]"
    using assms by (simp add: start_def relay_success)
  have 2: "enqueued (start generateContentStream p) = ts"
    unfolding 1 by (simp add: enqueued_texts)
  have 3: "read_loop (start generateContentStream p) [] s
           = (StreamDone, concat ts, snd (snd (read_loop (start generateContentStream p) [] s)))"
    unfolding 1 using read_loop_texts[of ts "[]" s] by (metis append_Nil prod.collapse)
  from 1 2 3 show ?thesis
    by (simp add: relay_texts close_in_relay)
qed

text \<open>
  The three fragments of the example.
\<close>

theorem relay_in_order_witness:
  "start provider_ok ''p'' = [enqueue ''Red'', enqueue '' planet'', enqueue '' vibes'', close]
   \<and> concat (enqueued (start provider_ok ''p'')) = ''Red planet vibes''"
  using relay_in_order[of provider_ok "''p''" "[''Red'', '' planet'', '' vibes'']"]
  by (simp add: provider_ok_def)

lemma relay_fails_first: "fails_first (Generating cs e) \<Longrightarrow> relay cs e = [error]"
  by (induction cs e rule: relay.induct) simp_all

lemma start_fails_first:
  assumes "fails_first (generateContentStream p)"
  shows "start generateContentStream p = [error]"
  using assms by (cases "generateContentStream p") (simp_all add: start_def relay_fails_first)

text \<open>
  Claim C3. If the provider call fails before yielding any text (the call is rejected,
  the stream fails at once, or the first chunk has no text), the response is a stream to
  which nothing was enqueued and which is errored, not closed; the reader's first
  \<^verbatim>\<open>read()\<close> rejects, so the loop throws instead of ending with an empty message.
\<close>

theorem failure_before_first_fragment:
  assumes "req_prompt r = Some p" and "p \<noteq> []"
    and "fails_first (generateContentStream
           (enhancedPrompt p (req_tone r) (req_goal r) (req_audience r) (req_conversationHistory r)))"
  shows "\<exists>cs. gemini_POST generateContentStream (Some u) (Some r) = StreamBody cs
            \<and> enqueued cs = [] \<and> error \<in> set cs \<and> close \<notin> set cs
            \<and> (\<forall>s. fst (read_loop cs [] s) = StreamThrew)"
proof -
  have "gemini_POST generateContentStream (Some u) (Some r) = StreamBody [error]"
    using assms by (simp add: gemini_POST_def start_fails_first)
  then show ?thesis by simp
qed

text \<open>
  The example request against a provider whose call is rejected.
\<close>

theorem failure_before_first_fragment_witness:
  "\<exists>cs. gemini_POST provider_down (Some ''user_1'') (Some request0) = StreamBody cs
        \<and> enqueued cs = [] \<and> error \<in> set cs \<and> close \<notin> set cs
        \<and> (\<forall>s. fst (read_loop cs [] s) = StreamThrew)"
  using failure_before_first_fragment[of request0 "''write a tweet about Mars''" provider_down "''user_1''"]
  by (simp add: request0_def provider_down_def)

section \<open>Properties of the dashboard\<close>

lemma char_of_eq: "char_of (n::nat) = c \<longleftrightarrow> n mod 256 = of_char c"
  by (metis of_char_of char_of_char)

lemma WhiteSpace_eval:
  "WhiteSpace =
     [[CHR 0x09], [CHR 0x0A], [CHR 0x0B], [CHR 0x0C], [CHR 0x0D], [CHR 0x20], [CHR 0xC2, CHR 0xA0],
      [CHR 0xE1, CHR 0x9A, CHR 0x80],
      [CHR 0xE2, CHR 0x80, CHR 0x80], [CHR 0xE2, CHR 0x80, CHR 0x81], [CHR 0xE2, CHR 0x80, CHR 0x82],
      [CHR 0xE2, CHR 0x80, CHR 0x83], [CHR 0xE2, CHR 0x80, CHR 0x84], [CHR 0xE2, CHR 0x80, CHR 0x85],
      [CHR 0xE2, CHR 0x80, CHR 0x86], [CHR 0xE2, CHR 0x80, CHR 0x87], [CHR 0xE2, CHR 0x80, CHR 0x88],
      [CHR 0xE2, CHR 0x80, CHR 0x89], [CHR 0xE2, CHR 0x80, CHR 0x8A],
      [CHR 0xE2, CHR 0x80, CHR 0xA8], [CHR 0xE2, CHR 0x80, CHR 0xA9], [CHR 0xE2, CHR 0x80, CHR 0xAF],
      [CHR 0xE2, CHR 0x81, CHR 0x9F], [CHR 0xE3, CHR 0x80, CHR 0x80], [CHR 0xEF, CHR 0xBB, CHR 0xBF]]"
  by (simp add: WhiteSpace_def utf8_def char_of_eq)

lemma WhiteSpace_nonempty: "ws \<in> set WhiteSpace \<Longrightarrow> ws \<noteq> []"
  by (auto simp: WhiteSpace_def utf8_def)

lemma WhiteSpace_lead:
  "w \<in> set WhiteSpace \<Longrightarrow>
   w \<noteq> [] \<and> length w = (if (of_char (hd w) :: nat) < 0x80 then 1
                              else if (of_char (hd w) :: nat) < 0xE0 then 2 else 3)"
  unfolding WhiteSpace_eval by auto

lemma WhiteSpace_prefix_free:
  assumes "a \<in> set WhiteSpace" and "b \<in> set WhiteSpace" and "prefix a b"
  shows "a = b"
proof -
  have "a \<noteq> []"
    using WhiteSpace_lead assms(1) by blast
  then have "hd a = hd b"
    using assms(3) by (auto simp: prefix_def)
  then have "length a = length b"
    using WhiteSpace_lead[OF assms(1)] WhiteSpace_lead[OF assms(2)] by simp
  with assms(3) show ?thesis
    by (auto simp: prefix_def)
qed

lemma find_WhiteSpace:
  assumes "w \<in> set WhiteSpace"
  shows "find (\<lambda>ws. prefix ws (w @ r)) WhiteSpace = Some w"
proof -
  have "find (\<lambda>ws. prefix ws (w @ r)) WhiteSpace \<noteq> None"
    using assms by (auto simp: find_None_iff)
  then obtain x where x: "find (\<lambda>ws. prefix ws (w @ r)) WhiteSpace = Some x"
    by blast
  then have m: "x \<in> set WhiteSpace" and "prefix x (w @ r)"
    by (auto simp: find_Some_iff)
  moreover have "prefix w (w @ r)"
    by simp
  ultimately have "prefix x w \<or> prefix w x"
    using prefix_same_cases by blast
  then have "x = w"
    using WhiteSpace_prefix_free[OF m assms] WhiteSpace_prefix_free[OF assms m] by blast
  with x show ?thesis by simp
qed

lemma trimStart_Nil: "trimStart [] = []"
proof -
  have "find (\<lambda>ws. prefix ws []) WhiteSpace = None"
    using WhiteSpace_lead by (auto simp: find_None_iff)
  then show ?thesis
    by (simp add: trimStart.simps[of "[]"])
qed

lemma trimEnd_Nil: "trimEnd [] = []"
proof -
  have "find (\<lambda>ws. suffix ws []) WhiteSpace = None"
    using WhiteSpace_lead by (auto simp: find_None_iff)
  then show ?thesis
    by (simp add: trimEnd.simps[of "[]"])
qed

lemma trimStart_blank: "set wss \<subseteq> set WhiteSpace \<Longrightarrow> trimStart (concat wss) = []"
proof (induction wss)
  case Nil
  then show ?case by (simp add: trimStart_Nil)
next
  case (Cons w wss)
  then have "find (\<lambda>ws. prefix ws (w @ concat wss)) WhiteSpace = Some w"
    by (intro find_WhiteSpace) simp
  then have "trimStart (w @ concat wss) = trimStart (concat wss)"
    by (simp add: trimStart.simps[of "w @ concat wss"])
  with Cons show ?case by simp
qed

lemma trim_blank: "set wss \<subseteq> set WhiteSpace \<Longrightarrow> trim (concat wss) = []"
  by (simp add: trim_def trimStart_blank trimEnd_Nil)


lemma trim_unchanged:
  assumes "find (\<lambda>ws. prefix ws s) WhiteSpace = None" and "find (\<lambda>ws. suffix ws s) WhiteSpace = None"
  shows "trim s = s"
  using assms by (simp add: trim_def trimStart.simps[of s] trimEnd.simps[of s])

text \<open>
  Claim C10. Submitting an input that is empty or is made of white space only (any
  sequence of the white-space and line-terminator characters that \<^verbatim>\<open>trim\<close> removes)
  changes nothing: the state (messages, chats, loading flag, streaming buffer and all
  else) and the world (the bucket, and the record of calls, so that no save and no
  generation request is issued) are as before, whether the form is submitted by the
  button or by the Enter key.
\<close>

theorem blank_submit_is_noop:
  assumes "set wss \<subseteq> set WhiteSpace" and "input s = concat wss"
  shows "handleSubmit (s, w) = (s, w)
       \<and> react PressEnter (s, w) = (s, w) \<and> react ClickGenerate (s, w) = (s, w)"
  using trim_blank[OF assms(1)] assms(2)
  by (simp add: handleSubmit_def handleSubmit_begin_def react_def disabled_def)

text \<open>
  A submission of a space, a no-break space, an ideographic space, a newline and a tab;
  and a submission of the empty input.
\<close>

theorem blank_submit_is_noop_witness:
  "handleSubmit (dash0\<lparr>input := [CHR 0x20, CHR 0xC2, CHR 0xA0, CHR 0xE3, CHR 0x80, CHR 0x80, CHR 0x0A, CHR 0x09]\<rparr>, world0)
     = (dash0\<lparr>input := [CHR 0x20, CHR 0xC2, CHR 0xA0, CHR 0xE3, CHR 0x80, CHR 0x80, CHR 0x0A, CHR 0x09]\<rparr>, world0)
   \<and> react PressEnter (dash0\<lparr>input := []\<rparr>, world0) = (dash0\<lparr>input := []\<rparr>, world0)"
proof -
  let ?wss = "[[CHR 0x20], [CHR 0xC2, CHR 0xA0], [CHR 0xE3, CHR 0x80, CHR 0x80], [CHR 0x0A], [CHR 0x09]]"
  let ?s = "dash0\<lparr>input := [CHR 0x20, CHR 0xC2, CHR 0xA0, CHR 0xE3, CHR 0x80, CHR 0x80, CHR 0x0A, CHR 0x09]\<rparr>"
  have h1: "set ?wss \<subseteq> set WhiteSpace"
    by (simp add: WhiteSpace_eval)
  have h2: "input ?s = concat ?wss"
    by simp
  have h3: "set ([] :: string list) \<subseteq> set WhiteSpace" and h4: "input (dash0\<lparr>input := []\<rparr>) = concat []"
    by simp_all
  show ?thesis
    using blank_submit_is_noop[OF h1 h2, of world0] blank_submit_is_noop[OF h3 h4, of world0]
    by simp
qed

lemma syncMessages_frame:
  "userId (syncMessages s) = userId s" "chats (syncMessages s) = chats s"
  "currentChatId (syncMessages s) = currentChatId s" "isLoading (syncMessages s) = isLoading s"
  "input (syncMessages s) = input s" "currentStreamingMessage (syncMessages s) = currentStreamingMessage s"
  by (simp_all add: syncMessages_def split: option.splits)

lemma createNewChat_state:
  "length (chats (fst (createNewChat (s, w)))) = Suc (length (chats s))"
  "currentChatId (fst (createNewChat (s, w))) = decimal (clock w (ticks w))"
  "isLoading (fst (createNewChat (s, w))) = isLoading s"
  by (simp_all add: createNewChat_def Date_now_def Let_def syncMessages_frame split: option.splits if_splits)

lemma selectChat_state:
  "currentChatId (fst (selectChat cid (s, w))) = cid"
  "isLoading (fst (selectChat cid (s, w))) = isLoading s"
  by (simp_all add: selectChat_def syncMessages_frame)

lemma saveChat_isLoading: "isLoading (fst (saveChat c k ms (s, w))) = isLoading s"
  by (simp add: saveChat_def Date_now_def Let_def syncMessages_frame split: option.splits if_splits)

lemma begin_isLoading:
  assumes "handleSubmit_begin (s, w) = Some (s', w')"
  shows "isLoading s'"
proof -
  from assms have "s' = fst (saveChat s (currentChatId s) (messages s @ [\<lparr>role = User, content = input s\<rparr>])
            (s\<lparr>messages := messages s @ [\<lparr>role = User, content = input s\<rparr>], input := [],
               isLoading := True, currentStreamingMessage := []\<rparr>, w))"
    by (auto simp: handleSubmit_begin_def Let_def split: if_splits prod.splits)
  then show ?thesis
    by (simp add: saveChat_isLoading)
qed

text \<open>
  Claim C5, as the code has it. A state with a request in flight has the loading flag
  set, and the flag disables the submit button. In every state, loading or not, the
  New Chat button and the entries of the chat list are enabled; clicking New Chat runs
  \<open>createNewChat\<close>, which appends a chat and makes it current, and clicking an entry
  makes that chat current.
\<close>

theorem chat_controls_not_gated:
  "(handleSubmit_begin (s0, w0) = Some (s, w) \<longrightarrow> isLoading s)
   \<and> \<not> disabled s ClickNewChat \<and> \<not> disabled s (ClickChat cid)
   \<and> (disabled s ClickGenerate \<longleftrightarrow> isLoading s)
   \<and> react ClickNewChat (s, w) = createNewChat (s, w)
   \<and> react (ClickChat cid) (s, w) = selectChat cid (s, w)
   \<and> length (chats (fst (createNewChat (s, w)))) = Suc (length (chats s))
   \<and> currentChatId (fst (createNewChat (s, w))) = decimal (clock w (ticks w))
   \<and> currentChatId (fst (selectChat cid (s, w))) = cid"
  using begin_isLoading[of s0 w0 s w]
  by (simp add: disabled_def react_def createNewChat_state selectChat_state)

lemma saveChat_frame:
  "currentChatId (fst (saveChat c k ms (s, w))) = currentChatId s"
  "length (chats (fst (saveChat c k ms (s, w)))) = length (chats s)"
  by (simp_all add: saveChat_def Date_now_def Let_def syncMessages_frame split: option.splits if_splits)

lemma in_flight_nonblank:
  assumes "trim (input s) \<noteq> []"
  shows "fst (in_flight (s, w)) =
         fst (saveChat s (currentChatId s) (messages s @ [\<lparr>role = User, content = input s\<rparr>])
            (s\<lparr>messages := messages s @ [\<lparr>role = User, content = input s\<rparr>], input := [],
               isLoading := True, currentStreamingMessage := []\<rparr>, w))"
  using assms by (simp add: in_flight_def handleSubmit_begin_def Let_def split: prod.splits)

lemma trim_example: "trim ''write a tweet about Mars'' \<noteq> []"
proof -
  have "trim ''write a tweet about Mars'' = ''write a tweet about Mars''"
    unfolding WhiteSpace_eval by (intro trim_unchanged) (simp_all add: WhiteSpace_eval suffix_def)
  then show ?thesis by simp
qed

text \<open>
  Claim C5 as stated fails: with the request of the example in flight and the loading
  flag set, New Chat is enabled and creates a third chat, and the entry of chat
  \<^verbatim>\<open>16\<close> is enabled and switches the current chat from \<^verbatim>\<open>17\<close> to \<^verbatim>\<open>16\<close>.
\<close>

theorem new_chat_while_loading_counterexample:
  "isLoading (fst (in_flight (dash0, world0)))
   \<and> currentChatId (fst (in_flight (dash0, world0))) = ''17''
   \<and> length (chats (fst (in_flight (dash0, world0)))) = 2
   \<and> \<not> disabled (fst (in_flight (dash0, world0))) ClickNewChat
   \<and> length (chats (fst (react ClickNewChat (in_flight (dash0, world0))))) = 3
   \<and> \<not> disabled (fst (in_flight (dash0, world0))) (ClickChat ''16'')
   \<and> currentChatId (fst (react (ClickChat ''16'') (in_flight (dash0, world0)))) = ''16''"
proof -
  obtain s w where sw: "in_flight (dash0, world0) = (s, w)"
    by (cases "in_flight (dash0, world0)")
  have t: "trim (input dash0) \<noteq> []"
    using trim_example by (simp add: dash0_def)
  have s: "isLoading s" "currentChatId s = ''17''" "length (chats s) = 2"
    using in_flight_nonblank[OF t, of world0] sw
    by (simp_all add: saveChat_isLoading saveChat_frame) (simp_all add: dash0_def)
  have "length (chats (fst (react ClickNewChat (s, w)))) = 3"
    using s by (simp add: react_def disabled_def createNewChat_state)
  moreover have "currentChatId (fst (react (ClickChat ''16'') (s, w))) = ''16''"
    by (simp add: react_def disabled_def selectChat_state)
  ultimately show ?thesis
    using s unfolding sw by (simp add: disabled_def)
qed

text \<open>
  The in-flight state of the example.
\<close>

theorem chat_controls_not_gated_witness:
  "isLoading (fst (in_flight (dash0, world0)))
   \<and> react ClickNewChat (in_flight (dash0, world0)) = createNewChat (in_flight (dash0, world0))
   \<and> (disabled (fst (in_flight (dash0, world0))) ClickGenerate)"
proof -
  have t: "trim (input dash0) \<noteq> []"
    using trim_example by (simp add: dash0_def)
  obtain s w where sw: "in_flight (dash0, world0) = (s, w)"
    by (cases "in_flight (dash0, world0)")
  then have b: "handleSubmit_begin (dash0, world0) = Some (s, w)"
    using t by (auto simp: in_flight_def handleSubmit_begin_def Let_def split: prod.splits)
  show ?thesis
    using chat_controls_not_gated[of dash0 world0 s w] b unfolding sw by simp
qed


















end
